theory Spec2Isabelle
  imports Main "HOL-Library.Word" "HOL-Library.AList" "HOL-Library.Sublist"
    "HOL-Library.List_Lexorder"
begin

unbundle bit_operations_syntax

section \<open>The data model of trie.go\<close>

text \<open>
  A key is handled by the source as \<^verbatim>\<open>[]rune(key)\<close>: a sequence of code points, each a
  Go \<^verbatim>\<open>rune\<close> (\<^verbatim>\<open>int32\<close>). The operations of the model take and return keys as lists
  of runes: \<open>Add\<close>, \<open>Remove\<close>, \<open>PrefixSearch\<close> and \<open>FuzzySearch\<close> are the source's
  methods from the point where \<^verbatim>\<open>[]rune(key)\<close> has been taken, and \<open>collect\<close> gathers the
  rune slices \<^verbatim>\<open>pre\<close> of which the source appends \<^verbatim>\<open>string(pre)\<close>. The two conversions
  are \<open>runes_of_string\<close> and \<open>string_of_runes\<close> of the section on strings below: the call
  \<^verbatim>\<open>t.Add(key)\<close> on a string is \<open>Add t (runes_of_string key)\<close>, and the strings that
  \<^verbatim>\<open>Keys\<close> returns are \<open>map string_of_runes\<close> of the list that \<open>Keys\<close> gives here.
\<close>

type_synonym rune = "32 word"

text \<open>
  \<^verbatim>\<open>type Node struct { val rune; term bool; mask uint64; parent *Node; children map[rune]*Node }\<close>

  The tree of nodes is a datatype. The map \<^verbatim>\<open>children\<close> is an association list: lookup is
  \<open>map_of\<close>, the assignment \<^verbatim>\<open>n.children[r] = node\<close> is \<open>AList.update\<close>, \<^verbatim>\<open>delete\<close> is
  \<open>AList.delete\<close>, \<^verbatim>\<open>len\<close> is \<open>length\<close> (the keys of the list stay distinct), and a
  \<^verbatim>\<open>range\<close> loop visits the list in its order (Go leaves the order open; every result
  below is stated for any order of the list, as a set or after sorting).

  The field \<^verbatim>\<open>parent\<close> is not stored: every node is created by
  \<^verbatim>\<open>node.NewChild(node, ...)\<close>, so the parent of a node is the node whose \<^verbatim>\<open>children\<close>
  hold it, and the parent chain of the node at a path is the list of nodes on that
  path (\<open>pathNodes\<close> below). A write through a pointer to a child is the update of the
  child's entry in its parent, up to the root.
\<close>

datatype Node = Node (val: rune) (term_n: bool) (mask_n: "64 word")
  (children: "(rune \<times> Node) list")

text \<open>
  \<^verbatim>\<open>type Trie struct { root *Node; size int }\<close>, with \<^verbatim>\<open>int\<close> of 64 bits; \<^verbatim>\<open>size++\<close>
  and \<^verbatim>\<open>size--\<close> wrap around.
\<close>

record Trie =
  root :: Node
  size_n :: "64 word"

text \<open>The run-time panics the source can raise.\<close>

datatype error = NilDereference | IndexOutOfRange

definition nul :: rune where
  "nul = 0"

definition set_mask :: "Node \<Rightarrow> 64 word \<Rightarrow> Node" where
  "set_mask n m = Node (val n) (term_n n) m (children n)"

definition set_children :: "Node \<Rightarrow> (rune \<times> Node) list \<Rightarrow> Node" where
  "set_children n cs = Node (val n) (term_n n) (mask_n n) cs"

text \<open>
  \<^verbatim>\<open>func newNode(parent *Node, val rune, m uint64, term bool) *Node\<close>: a node without
  children.
\<close>

definition newNode :: "rune \<Rightarrow> 64 word \<Rightarrow> bool \<Rightarrow> Node" where
  "newNode v m t = Node v t m []"

text \<open>
  \<^verbatim>\<open>func (n *Node) NewChild(parent *Node, r rune, bitmask uint64, val rune, term bool) *Node {
      node := newNode(parent, val, bitmask, term); n.children[r] = node; return node }\<close>

  The model returns the node \<open>n\<close> with its new entry, and the new child.
\<close>

definition NewChild :: "Node \<Rightarrow> rune \<Rightarrow> 64 word \<Rightarrow> rune \<Rightarrow> bool \<Rightarrow> Node \<times> Node" where
  "NewChild n r bitmask v t =
     (let node = newNode v bitmask t
      in (set_children n (AList.update r node (children n)), node))"

text \<open>
  \<^verbatim>\<open>func maskrune(r rune) uint64 { i := uint64(1); return i << (uint64(r) - 97) }\<close>

  \<^verbatim>\<open>uint64(r)\<close> sign-extends the rune, the subtraction wraps around, and a Go shift by a
  count of 64 or more gives 0.
\<close>

definition maskrune :: "rune \<Rightarrow> 64 word" where
  "maskrune r =
     (let i = (1 :: 64 word);
          s = (scast r :: 64 word) - 97
      in if s < 64 then push_bit (unat s) i else 0)"

text \<open>
  \<^verbatim>\<open>func maskruneslice(rs []rune) uint64 { var m uint64; for _, r := range rs { m |= maskrune(r) }; return m }\<close>
\<close>

definition maskruneslice :: "rune list \<Rightarrow> 64 word" where
  "maskruneslice rs = fold (\<lambda>r m. m OR maskrune r) rs 0"

text \<open>
  \<^verbatim>\<open>func (n *Node) recalculateMask() {
      n.mask = maskrune(n.Val())
      for k, c := range n.Children() { n.mask |= (maskrune(k) | c.Mask()) } }\<close>
\<close>

definition recalculateMask :: "Node \<Rightarrow> Node" where
  "recalculateMask n =
     set_mask n (fold (\<lambda>(k, c) m. m OR (maskrune k OR mask_n c)) (children n) (maskrune (val n)))"

text \<open>
  \<^verbatim>\<open>func (n *Node) RemoveChild(r rune) {
      delete(n.children, r)
      n.recalculateMask()
      for parent := n.Parent(); parent != nil; parent = parent.Parent() { parent.recalculateMask() } }\<close>

  \<open>RemoveChild\<close> is the part that works on \<open>n\<close> itself. \<open>RemoveChild_at node path r\<close>
  is the whole call on the node \<open>n\<close> that \<open>path\<close> leads to from \<open>node\<close>: it rebuilds the
  nodes above \<open>n\<close> around the changed \<open>n\<close> and recalculates the mask of each of them on
  the way back up, the nearest parent first and \<open>node\<close> last, as the loop over the parent
  chain does.
\<close>

definition RemoveChild :: "Node \<Rightarrow> rune \<Rightarrow> Node" where
  "RemoveChild n r = recalculateMask (set_children n (AList.delete r (children n)))"

fun RemoveChild_at :: "Node \<Rightarrow> rune list \<Rightarrow> rune \<Rightarrow> Node" where
  "RemoveChild_at node [] r = RemoveChild node r"
| "RemoveChild_at node (p # ps) r =
     (case map_of (children node) p of
        None \<Rightarrow> node
      | Some c \<Rightarrow> recalculateMask
          (set_children node (AList.update p (RemoveChild_at c ps r) (children node))))"

text \<open>
  \<^verbatim>\<open>func CreateTrie() *Trie { node := newNode(nil, 0, 0, false); return &Trie{root: node, size: 0} }\<close>
\<close>

definition CreateTrie :: Trie where
  "CreateTrie = \<lparr>root = newNode 0 0 False, size_n = 0\<rparr>"

text \<open>
  \<^verbatim>\<open>func (t Trie) addrune(node *Node, runes []rune, i int) int {
      if len(runes) == 0 { node.NewChild(node, 0, 0, nul, true); return i }
      r := runes[0]
      c := node.Children()
      n, ok := c[r]
      bitmask := maskruneslice(runes)
      if !ok { n = node.NewChild(node, r, bitmask, r, false) }
      n.mask |= bitmask
      i++
      return t.addrune(n, runes[1:], i) }\<close>

  The model returns the changed \<open>node\<close> with the result. The child \<open>n\<close> is changed in
  place by the source, here its entry under \<open>r\<close> is replaced by the changed child. The
  counter \<open>i\<close> is at most the length of the key, so it is an \<open>int\<close>.
\<close>

fun addrune :: "Node \<Rightarrow> rune list \<Rightarrow> int \<Rightarrow> Node \<times> int" where
  "addrune node [] i = (fst (NewChild node 0 0 nul True), i)"
| "addrune node (r # rs) i =
     (let c = children node;
          bitmask = maskruneslice (r # rs);
          (node1, n) = (case map_of c r of
                          Some n \<Rightarrow> (node, n)
                        | None \<Rightarrow> NewChild node r bitmask r False);
          n1 = set_mask n (mask_n n OR bitmask);
          (n2, d) = addrune n1 rs (i + 1)
      in (set_children node1 (AList.update r n2 (children node1)), d))"

text \<open>
  \<^verbatim>\<open>func (t *Trie) Add(key string) int { t.size++; runes := []rune(key); return t.addrune(t.Root(), runes, 0) }\<close>

  The argument \<open>key\<close> of the model is the slice \<^verbatim>\<open>runes\<close>.
\<close>

definition Add :: "Trie \<Rightarrow> rune list \<Rightarrow> Trie \<times> int" where
  "Add t key =
     (let t1 = t\<lparr>size_n := size_n t + 1\<rparr>;
          (r, d) = addrune (root t1) key 0
      in (t1\<lparr>root := r\<rparr>, d))"

text \<open>
  The loop of \<^verbatim>\<open>AddFromFile\<close>, \<^verbatim>\<open>for reader.Scan() { t.Add(reader.Text()) }\<close>, on the
  lines read.
\<close>

definition AddAll :: "Trie \<Rightarrow> rune list list \<Rightarrow> Trie" where
  "AddAll t ks = fold (\<lambda>key t. fst (Add t key)) ks t"

text \<open>
  \<^verbatim>\<open>func findNode(node *Node, runes []rune, d int) *Node {
      if node == nil { return nil }
      if len(runes) == 0 { return node }
      upper := len(runes)
      if d == upper { return node }
      n, ok := node.Children()[runes[d]]
      if !ok { return nil }
      d++
      return findNode(n, runes, d) }\<close>

  A \<^verbatim>\<open>*Node\<close> that may be \<^verbatim>\<open>nil\<close> is a \<open>Node option\<close>; \<^verbatim>\<open>runes[d]\<close> panics outside the
  slice. The index \<open>d\<close> starts at 0 and is only incremented, so it is a \<open>nat\<close>.
\<close>

function findNode :: "Node option \<Rightarrow> rune list \<Rightarrow> nat \<Rightarrow> error + Node option" where
  "findNode node runes d =
     (case node of
        None \<Rightarrow> Inr None
      | Some nd \<Rightarrow>
          if length runes = 0 then Inr (Some nd)
          else if d = length runes then Inr (Some nd)
          else if \<not> d < length runes then Inl IndexOutOfRange
          else (case map_of (children nd) (runes ! d) of
                  None \<Rightarrow> Inr None
                | Some n \<Rightarrow> findNode (Some n) runes (d + 1)))"
  by pat_completeness auto
termination
  by (relation "measure (\<lambda>(node, runes, d). length runes - d)") auto

text \<open>
  \<^verbatim>\<open>func (t Trie) nodeAtPath(pre string) *Node { runes := []rune(pre); return findNode(t.Root(), runes, 0) }\<close>
\<close>

definition nodeAtPath :: "Trie \<Rightarrow> rune list \<Rightarrow> error + Node option" where
  "nodeAtPath t pre = findNode (Some (root t)) pre 0"

text \<open>
  \<^verbatim>\<open>func collect(node *Node, pre []rune, keys *[]string) {
      children := node.Children()
      for r, n := range children {
          if n.term { *keys = append( *keys, string(pre)); continue }
          npre := append(pre, r)
          collect(n, npre, keys) } }\<close>

  \<open>collect_loop\<close> is the \<^verbatim>\<open>range\<close> loop over the entries still to visit. Each call reads
  only its own prefix of the slice behind \<^verbatim>\<open>npre\<close>, and \<^verbatim>\<open>string(pre)\<close> copies it, so
  \<^verbatim>\<open>append(pre, r)\<close> is \<open>pre @ [r]\<close>.
\<close>

fun collect :: "Node \<Rightarrow> rune list \<Rightarrow> rune list list \<Rightarrow> rune list list"
  and collect_loop :: "(rune \<times> Node) list \<Rightarrow> rune list \<Rightarrow> rune list list \<Rightarrow> rune list list" where
  "collect (Node v t m cs) pre keys = collect_loop cs pre keys"
| "collect_loop [] pre keys = keys"
| "collect_loop ((r, n) # cs) pre keys =
     (if term_n n then collect_loop cs pre (keys @ [pre])
      else collect_loop cs pre (collect n (pre @ [r]) keys))"

text \<open>
  \<^verbatim>\<open>func fuzzycollect(node *Node, partialmatch, partial []rune, keys *[]string) {
      partiallen := len(partial)
      if partiallen == 0 { collect(node, partialmatch, keys); return }
      m := maskruneslice(partial)
      children := node.Children()
      for v, n := range children {
          xor := n.Mask() ^ m
          if (xor & m) != 0 { continue }
          npartial := partial
          if v == partial[0] {
              if partiallen > 1 { npartial = partial[1:] } else { npartial = partial[0:0] } }
          fuzzycollect(n, append(partialmatch, v), npartial, keys) } }\<close>

  \<open>fuzzy_loop\<close> is the \<^verbatim>\<open>range\<close> loop; it runs only where \<open>partial\<close> is not empty, so
  \<^verbatim>\<open>partial[0]\<close> is \<open>hd partial\<close>.
\<close>

fun fuzzycollect :: "Node \<Rightarrow> rune list \<Rightarrow> rune list \<Rightarrow> rune list list \<Rightarrow> rune list list"
  and fuzzy_loop :: "(rune \<times> Node) list \<Rightarrow> 64 word \<Rightarrow> rune list \<Rightarrow> rune list
                       \<Rightarrow> rune list list \<Rightarrow> rune list list" where
  "fuzzycollect (Node v t m cs) partialmatch partial keys =
     (if length partial = 0 then collect (Node v t m cs) partialmatch keys
      else fuzzy_loop cs (maskruneslice partial) partialmatch partial keys)"
| "fuzzy_loop [] m partialmatch partial keys = keys"
| "fuzzy_loop ((v, n) # cs) m partialmatch partial keys =
     (let xor = mask_n n XOR m
      in if xor AND m \<noteq> 0 then fuzzy_loop cs m partialmatch partial keys
         else
           let npartial = (if v = hd partial
                           then (if length partial > 1 then tl partial else [])
                           else partial)
           in fuzzy_loop cs m partialmatch partial
                (fuzzycollect n (partialmatch @ [v]) npartial keys))"

text \<open>
  \<^verbatim>\<open>func (t Trie) FuzzySearch(pre string) []string {
      var (keys []string; pm []rune)
      fuzzycollect(t.Root(), pm, []rune(pre), &keys); sort.Strings(keys); return keys }\<close>

  \<^verbatim>\<open>sort.Strings\<close> sorts into increasing order of the strings, which for the encodings of
  code point sequences is the lexicographic order of the sequences.
\<close>

definition FuzzySearch :: "Trie \<Rightarrow> rune list \<Rightarrow> rune list list" where
  "FuzzySearch t pre = sort (fuzzycollect (root t) [] pre [])"

text \<open>
  \<^verbatim>\<open>func (t Trie) PrefixSearch(pre string) []string {
      var keys []string
      node := t.nodeAtPath(pre)
      if node == nil { return keys }
      collect(node, []rune(pre), &keys); return keys }\<close>
\<close>

definition PrefixSearch :: "Trie \<Rightarrow> rune list \<Rightarrow> error + rune list list" where
  "PrefixSearch t pre =
     (case nodeAtPath t pre of
        Inl e \<Rightarrow> Inl e
      | Inr None \<Rightarrow> Inr []
      | Inr (Some node) \<Rightarrow> Inr (collect node pre []))"

text \<open>\<^verbatim>\<open>func (t *Trie) Keys() []string { return t.PrefixSearch("") }\<close>\<close>

definition Keys :: "Trie \<Rightarrow> error + rune list list" where
  "Keys t = PrefixSearch t []"

text \<open>
  \<^verbatim>\<open>func (t *Trie) Remove(key string) {
      var ( i int; rs = []rune(key); node = t.nodeAtPath(key) )
      t.size--
      for n := node.Parent(); n != nil; n = n.Parent() {
          i++
          if len(n.Children()) > 1 {
              idx := len(rs) - i
              r := rs[idx]
              n.RemoveChild(r)
              break } } }\<close>

  \<open>pathNodes node rs\<close> lists the nodes that \<open>findNode\<close> visits from \<open>node\<close> along \<open>rs\<close>.
  When the node at \<open>key\<close> exists it is the last of them, and \<open>parentChain\<close>, the others
  from the deepest to the root, is what \<^verbatim>\<open>node.Parent()\<close>, \<^verbatim>\<open>n.Parent()\<close>, ... run
  through. \<open>Remove_loop\<close> is the \<^verbatim>\<open>for\<close> loop over that chain: it stops at the first node
  with more than one child and gives its depth, which is the number of nodes of the
  chain above it, and the rune \<^verbatim>\<open>rs[idx]\<close>. \<^verbatim>\<open>node.Parent()\<close> on a \<^verbatim>\<open>nil\<close> node panics,
  after \<^verbatim>\<open>t.size--\<close>.
\<close>

fun pathNodes :: "Node \<Rightarrow> rune list \<Rightarrow> Node list" where
  "pathNodes node [] = [node]"
| "pathNodes node (r # rs) =
     node # (case map_of (children node) r of None \<Rightarrow> [] | Some n \<Rightarrow> pathNodes n rs)"

definition parentChain :: "Trie \<Rightarrow> rune list \<Rightarrow> Node list" where
  "parentChain t key = rev (butlast (pathNodes (root t) key))"

fun Remove_loop :: "Node list \<Rightarrow> rune list \<Rightarrow> int \<Rightarrow> error + (nat \<times> rune) option" where
  "Remove_loop [] rs i = Inr None"
| "Remove_loop (n # ns) rs i =
     (let i = i + 1
      in if length (children n) > 1
         then (let idx = int (length rs) - i
               in if idx < 0 \<or> int (length rs) \<le> idx then Inl IndexOutOfRange
                  else Inr (Some (length ns, rs ! nat idx)))
         else Remove_loop ns rs i)"

definition Remove :: "Trie \<Rightarrow> rune list \<Rightarrow> error + Trie" where
  "Remove t key =
     (let rs = key
      in case nodeAtPath t key of
           Inl e \<Rightarrow> Inl e
         | Inr node \<Rightarrow>
             (let t1 = t\<lparr>size_n := size_n t - 1\<rparr>
              in case node of
                   None \<Rightarrow> Inl NilDereference
                 | Some nd \<Rightarrow>
                     (case Remove_loop (parentChain t1 key) rs 0 of
                        Inl e \<Rightarrow> Inl e
                      | Inr None \<Rightarrow> Inr t1
                      | Inr (Some (d, r)) \<Rightarrow>
                          Inr (t1\<lparr>root := RemoveChild_at (root t1) (take d rs) r\<rparr>))))"

section \<open>Strings and rune slices\<close>

text \<open>
  A Go string is a sequence of bytes. \<^verbatim>\<open>[]rune(s)\<close> gives the code points that a
  \<^verbatim>\<open>range\<close> loop over \<^verbatim>\<open>s\<close> gives: a byte below \<^verbatim>\<open>0x80\<close> is its own code point, and
  otherwise Go's \<^verbatim>\<open>decoderune\<close> reads a sequence of two, three or four bytes,

  \<^verbatim>\<open>case t2 <= s[0] && s[0] < t3:
      if len(s) > 1 && (locb <= s[1] && s[1] <= hicb) {
          r = rune(s[0]&mask2)<<6 | rune(s[1]&maskx)
          pos += 2
          if rune1Max < r { return } }\<close>

  and likewise for three bytes (\<^verbatim>\<open>rune2Max < r\<close> and \<^verbatim>\<open>r\<close> not a surrogate) and four bytes
  (\<^verbatim>\<open>rune3Max < r && r <= maxRune\<close>), with \<^verbatim>\<open>return runeError, k + 1\<close> in every other
  case: a byte that does not start a well-formed encoding gives \<^verbatim>\<open>U+FFFD\<close> and is passed
  alone. The constants are \<^verbatim>\<open>t2 = 0xC0\<close>, \<^verbatim>\<open>t3 = 0xE0\<close>, \<^verbatim>\<open>t4 = 0xF0\<close>, \<^verbatim>\<open>t5 = 0xF8\<close>,
  \<^verbatim>\<open>locb = 0x80\<close>, \<^verbatim>\<open>hicb = 0xBF\<close>, \<^verbatim>\<open>mask2 = 0x1F\<close>, \<^verbatim>\<open>mask3 = 0x0F\<close>,
  \<^verbatim>\<open>mask4 = 0x07\<close>, \<^verbatim>\<open>maskx = 0x3F\<close>. \<open>decoderune s\<close> is the call on the rest \<open>s\<close> of
  the string, which is not empty, and gives the rune and the number of bytes read.
\<close>

type_synonym gostring = "8 word list"

definition runeError :: rune where
  "runeError = 0xFFFD"

definition contbyte :: "8 word \<Rightarrow> bool" where
  "contbyte b = (0x80 \<le> b \<and> b \<le> 0xBF)"

definition rune2 :: "8 word \<Rightarrow> 8 word \<Rightarrow> rune" where
  "rune2 b0 b1 = push_bit 6 (ucast (b0 AND 0x1F)) OR ucast (b1 AND 0x3F)"

definition rune3 :: "8 word \<Rightarrow> 8 word \<Rightarrow> 8 word \<Rightarrow> rune" where
  "rune3 b0 b1 b2 =
     push_bit 12 (ucast (b0 AND 0x0F)) OR push_bit 6 (ucast (b1 AND 0x3F)) OR ucast (b2 AND 0x3F)"

definition rune4 :: "8 word \<Rightarrow> 8 word \<Rightarrow> 8 word \<Rightarrow> 8 word \<Rightarrow> rune" where
  "rune4 b0 b1 b2 b3 =
     push_bit 18 (ucast (b0 AND 0x07)) OR push_bit 12 (ucast (b1 AND 0x3F))
       OR push_bit 6 (ucast (b2 AND 0x3F)) OR ucast (b3 AND 0x3F)"

definition decoderune :: "gostring \<Rightarrow> rune \<times> nat" where
  "decoderune s =
     (if 0xC0 \<le> s ! 0 \<and> s ! 0 < 0xE0 then
        (if length s > 1 \<and> contbyte (s ! 1) then
           (let r = rune2 (s ! 0) (s ! 1)
            in if 0x7F < r then (r, 2) else (runeError, 1))
         else (runeError, 1))
      else if 0xE0 \<le> s ! 0 \<and> s ! 0 < 0xF0 then
        (if length s > 2 \<and> contbyte (s ! 1) \<and> contbyte (s ! 2) then
           (let r = rune3 (s ! 0) (s ! 1) (s ! 2)
            in if 0x7FF < r \<and> \<not> (0xD800 \<le> r \<and> r \<le> 0xDFFF) then (r, 3)
               else (runeError, 1))
         else (runeError, 1))
      else if 0xF0 \<le> s ! 0 \<and> s ! 0 < 0xF8 then
        (if length s > 3 \<and> contbyte (s ! 1) \<and> contbyte (s ! 2) \<and> contbyte (s ! 3) then
           (let r = rune4 (s ! 0) (s ! 1) (s ! 2) (s ! 3)
            in if 0xFFFF < r \<and> r \<le> 0x10FFFF then (r, 4) else (runeError, 1))
         else (runeError, 1))
      else (runeError, 1))"

text \<open>\<^verbatim>\<open>[]rune(s)\<close>: the runes of the \<^verbatim>\<open>range\<close> loop over \<^verbatim>\<open>s\<close>, in order.\<close>

function runes_of_string :: "gostring \<Rightarrow> rune list" where
  "runes_of_string [] = []"
| "runes_of_string (b # bs) =
     (if b < 0x80 then ucast b # runes_of_string bs
      else (let (r, w) = decoderune (b # bs) in r # runes_of_string (drop w (b # bs))))"
  by pat_completeness auto
termination
proof (relation "measure length")
  show "wf (measure length)" by simp
next
  fix b :: "8 word" and bs
  show "(bs, b # bs) \<in> measure length" by simp
next
  fix b :: "8 word" and bs x r w
  assume "x = decoderune (b # bs)" "(r, w) = x"
  moreover have "1 \<le> snd (decoderune (b # bs))" by (simp add: decoderune_def Let_def)
  ultimately have "1 \<le> w" by (metis snd_conv)
  then show "(drop w (b # bs), b # bs) \<in> measure length" by simp
qed

text \<open>
  \<^verbatim>\<open>string(rs)\<close> joins the encodings that Go's \<^verbatim>\<open>encoderune\<close> gives for the runes:

  \<^verbatim>\<open>switch i := uint32(r); {
    case i <= rune1Max: p[0] = byte(r); return 1
    case i <= rune2Max: p[0] = t2 | byte(r>>6); p[1] = tx | byte(r)&maskx; return 2
    case i > maxRune, surrogateMin <= i && i <= surrogateMax: r = runeError; fallthrough
    case i <= rune3Max:
        p[0] = t3 | byte(r>>12); p[1] = tx | byte(r>>6)&maskx; p[2] = tx | byte(r)&maskx; return 3
    default:
        p[0] = t4 | byte(r>>18); p[1] = tx | byte(r>>12)&maskx
        p[2] = tx | byte(r>>6)&maskx; p[3] = tx | byte(r)&maskx; return 4 }\<close>

  with \<^verbatim>\<open>tx = 0x80\<close>. The comparisons are unsigned, as the order of words is; where
  \<^verbatim>\<open>r\<close> is shifted it is not negative.
\<close>

definition encoderune :: "rune \<Rightarrow> gostring" where
  "encoderune r =
     (let i = r
      in if i \<le> 0x7F then [ucast r]
         else if i \<le> 0x7FF then
           [0xC0 OR ucast (drop_bit 6 r), 0x80 OR (ucast r AND 0x3F)]
         else if i > 0x10FFFF \<or> (0xD800 \<le> i \<and> i \<le> 0xDFFF) then
           [0xE0 OR ucast (drop_bit 12 runeError), 0x80 OR (ucast (drop_bit 6 runeError) AND 0x3F),
            0x80 OR (ucast runeError AND 0x3F)]
         else if i \<le> 0xFFFF then
           [0xE0 OR ucast (drop_bit 12 r), 0x80 OR (ucast (drop_bit 6 r) AND 0x3F),
            0x80 OR (ucast r AND 0x3F)]
         else
           [0xF0 OR ucast (drop_bit 18 r), 0x80 OR (ucast (drop_bit 12 r) AND 0x3F),
            0x80 OR (ucast (drop_bit 6 r) AND 0x3F), 0x80 OR (ucast r AND 0x3F)])"

definition string_of_runes :: "rune list \<Rightarrow> gostring" where
  "string_of_runes rs = concat (map encoderune rs)"

section \<open>Notions used to state the properties\<close>

text \<open>A key is stored in a trie when \<open>Keys\<close> returns it.\<close>

definition stored :: "Trie \<Rightarrow> rune list \<Rightarrow> bool" where
  "stored t k = (case Keys t of Inl e \<Rightarrow> False | Inr ks \<Rightarrow> k \<in> set ks)"

text \<open>
  The tries a program can hold: the fresh one, and those that \<open>Add\<close> (of a key that \<open>ok\<close>
  admits) and a \<open>Remove\<close> that returns make from them.
\<close>

inductive built :: "(rune list \<Rightarrow> bool) \<Rightarrow> Trie \<Rightarrow> bool" for ok :: "rune list \<Rightarrow> bool" where
  built_Create: "built ok CreateTrie"
| built_Add: "built ok t \<Longrightarrow> ok key \<Longrightarrow> built ok (fst (Add t key))"
| built_Remove: "built ok t \<Longrightarrow> Remove t key = Inr t' \<Longrightarrow> built ok t'"

definition any_key :: "rune list \<Rightarrow> bool" where
  "any_key key = True"

text \<open>The keys in which the code point 0, the \<^verbatim>\<open>nul\<close> of the sentinel, does not occur.\<close>

definition nul_free :: "rune list \<Rightarrow> bool" where
  "nul_free key = (nul \<notin> set key)"

text \<open>
  The mask of a node as the specification gives it:
  \<^verbatim>\<open>mask(node) = bit(node.character) | OR over each child c of (bit(c.character) | mask(c))\<close>.
\<close>

definition spec_mask :: "Node \<Rightarrow> 64 word" where
  "spec_mask n =
     fold (\<lambda>(k, c) m. m OR (maskrune (val c) OR mask_n c)) (children n) (maskrune (val n))"

definition mask_invariant :: "Node \<Rightarrow> bool" where
  "mask_invariant n = (mask_n n = spec_mask n)"

text \<open>The nodes below a node: its children and theirs, at any depth.\<close>

fun descendants :: "Node \<Rightarrow> Node list"
  and descendants_list :: "(rune \<times> Node) list \<Rightarrow> Node list" where
  "descendants (Node v t m cs) = descendants_list cs"
| "descendants_list [] = []"
| "descendants_list ((k, c) # cs) = c # descendants c @ descendants_list cs"

section \<open>Notions used in the proofs\<close>

text \<open>
  \<open>key_in cs s\<close>: below the entries \<open>cs\<close> the runes \<open>s\<close> lead through nodes that are not
  terminal to a node with a terminal child.
\<close>

fun key_in :: "(rune \<times> Node) list \<Rightarrow> rune list \<Rightarrow> bool" where
  "key_in cs [] = (\<exists>(r, c) \<in> set cs. term_n c)"
| "key_in cs (r # rs) = (\<exists>(k, c) \<in> set cs. k = r \<and> \<not> term_n c \<and> key_in (children c) rs)"

definition is_key :: "Node \<Rightarrow> rune list \<Rightarrow> bool" where
  "is_key n s = key_in (children n) s"

text \<open>The node at a path, by recursion on the path.\<close>

fun lookup :: "Node \<Rightarrow> rune list \<Rightarrow> Node option" where
  "lookup n [] = Some n"
| "lookup n (r # rs) = (case map_of (children n) r of None \<Rightarrow> None | Some c \<Rightarrow> lookup c rs)"

text \<open>
  \<open>wf_node P n\<close>: at every depth below \<open>n\<close> the keys of a node's children are distinct,
  and every entry \<open>(k, c)\<close> satisfies \<open>P k c\<close>.
\<close>

fun wf_node :: "(rune \<Rightarrow> Node \<Rightarrow> bool) \<Rightarrow> Node \<Rightarrow> bool"
  and wf_children :: "(rune \<Rightarrow> Node \<Rightarrow> bool) \<Rightarrow> (rune \<times> Node) list \<Rightarrow> bool" where
  "wf_node P (Node v t m cs) = (distinct (map fst cs) \<and> wf_children P cs)"
| "wf_children P [] = True"
| "wf_children P ((k, c) # cs) = (P k c \<and> wf_node P c \<and> wf_children P cs)"

definition children_mask :: "(rune \<times> Node) list \<Rightarrow> 64 word" where
  "children_mask cs = fold (\<lambda>(k, c) m. m OR (maskrune k OR mask_n c)) cs 0"

definition bits :: "64 word \<Rightarrow> nat set" where
  "bits w = {i. bit w i}"

text \<open>The child holds its key, and its mask has every bit that recalculation would set.\<close>

definition cover_ok :: "rune \<Rightarrow> Node \<Rightarrow> bool" where
  "cover_ok k c = (val c = k \<and> mask_n (recalculateMask c) OR mask_n c = mask_n c)"

definition sentinel :: Node where
  "sentinel = newNode nul 0 True"

text \<open>
  The child holds its key, the terminal nodes are the sentinels under the key 0, and
  the mask is the recalculated one.
\<close>

definition exact_ok :: "rune \<Rightarrow> Node \<Rightarrow> bool" where
  "exact_ok k c =
     (val c = k \<and> (term_n c \<longrightarrow> k = 0) \<and> (k = 0 \<longrightarrow> c = sentinel) \<and>
      mask_n c = mask_n (recalculateMask c))"

definition child_or_new :: "Node \<Rightarrow> rune \<Rightarrow> 64 word \<Rightarrow> Node" where
  "child_or_new node r bitmask =
     (case map_of (children node) r of Some n \<Rightarrow> n | None \<Rightarrow> newNode r bitmask False)"

section \<open>Lemmas\<close>

subsection \<open>Masks as sets of bits\<close>


lemma bits_inject: "bits a = bits b \<longleftrightarrow> a = b"
proof
  assume "bits a = bits b"
  then have "\<And>i. bit a i = bit b i" by (auto simp: bits_def)
  then show "a = b" by (simp add: bit_eq_iff)
qed simp

lemma bits_or [simp]: "bits (a OR b) = bits a \<union> bits b"
  by (auto simp: bits_def bit_or_iff)

lemma bits_zero [simp]: "bits 0 = {}"
  by (simp add: bits_def)

lemma or_absorb_bits: "a OR b = b \<longleftrightarrow> bits a \<subseteq> bits b"
  unfolding bits_inject [symmetric] by auto

lemma prune_test_bits: "(x XOR m) AND m = 0 \<longleftrightarrow> bits m \<subseteq> bits x"
proof
  assume z: "(x XOR m) AND m = 0"
  show "bits m \<subseteq> bits x"
  proof
    fix i assume "i \<in> bits m"
    then have m: "bit m i" by (simp add: bits_def)
    have "\<not> bit ((x XOR m) AND m) i" by (simp add: z)
    with m show "i \<in> bits x" by (simp add: bits_def bit_and_iff bit_xor_iff)
  qed
next
  assume s: "bits m \<subseteq> bits x"
  show "(x XOR m) AND m = 0"
  proof (rule bit_eqI)
    fix i
    show "bit ((x XOR m) AND m) i \<longleftrightarrow> bit (0 :: 64 word) i"
      using s by (auto simp: bits_def bit_and_iff bit_xor_iff)
  qed
qed

lemma fold_or_maskrune: "fold (\<lambda>r m. m OR maskrune r) rs a = a OR maskruneslice rs"
proof (induction rs arbitrary: a)
  case Nil
  show ?case by (simp add: maskruneslice_def)
next
  case (Cons r rs)
  have "fold (\<lambda>r m. m OR maskrune r) (r # rs) a = (a OR maskrune r) OR maskruneslice rs"
    using Cons.IH [of "a OR maskrune r"] by simp
  moreover have "maskruneslice (r # rs) = maskrune r OR maskruneslice rs"
    using Cons.IH [of "0 OR maskrune r"] by (simp add: maskruneslice_def)
  ultimately show ?case by (simp add: or.assoc)
qed

lemma maskruneslice_Nil [simp]: "maskruneslice [] = 0"
  by (simp add: maskruneslice_def)

lemma maskruneslice_Cons [simp]: "maskruneslice (r # rs) = maskrune r OR maskruneslice rs"
  using fold_or_maskrune [of rs "0 OR maskrune r"] by (simp add: maskruneslice_def)

lemma bits_maskruneslice: "bits (maskruneslice rs) = (\<Union>r \<in> set rs. bits (maskrune r))"
  by (induction rs) auto

lemma fold_or_children:
  "fold (\<lambda>(k, c) m. m OR (maskrune k OR mask_n c)) cs a = a OR children_mask cs"
proof (induction cs arbitrary: a)
  case Nil
  show ?case by (simp add: children_mask_def)
next
  case (Cons kc cs)
  obtain k c where kc: "kc = (k, c)" by (cases kc)
  have "fold (\<lambda>(k, c) m. m OR (maskrune k OR mask_n c)) (kc # cs) a
        = (a OR (maskrune k OR mask_n c)) OR children_mask cs"
    using Cons.IH [of "a OR (maskrune k OR mask_n c)"] by (simp add: kc)
  moreover have "children_mask (kc # cs) = (maskrune k OR mask_n c) OR children_mask cs"
    using Cons.IH [of "0 OR (maskrune k OR mask_n c)"] by (simp add: kc children_mask_def)
  ultimately show ?case by (simp add: or.assoc)
qed

lemma children_mask_Nil [simp]: "children_mask [] = 0"
  by (simp add: children_mask_def)

lemma children_mask_Cons [simp]:
  "children_mask ((k, c) # cs) = (maskrune k OR mask_n c) OR children_mask cs"
  using fold_or_children [of cs "0 OR (maskrune k OR mask_n c)"] by (simp add: children_mask_def)

lemma bits_children_mask:
  "bits (children_mask cs) = (\<Union>(k, c) \<in> set cs. bits (maskrune k) \<union> bits (mask_n c))"
  by (induction cs) auto

lemma mask_recalculateMask:
  "mask_n (recalculateMask n) = maskrune (val n) OR children_mask (children n)"
  by (simp add: recalculateMask_def set_mask_def fold_or_children)

lemma maskrune_nul [simp]: "maskrune 0 = 0"
  by (simp add: maskrune_def)

subsection \<open>findNode and the node at a path\<close>

declare findNode.simps [simp del]

lemma findNode_lookup:
  "d \<le> length rs \<Longrightarrow> findNode (Some n) rs d = Inr (lookup n (drop d rs))"
proof (induction "length rs - d" arbitrary: n d)
  case 0
  then have "d = length rs" by simp
  then show ?case by (simp add: findNode.simps [of "Some n"])
next
  case (Suc m)
  then have lt: "d < length rs" by simp
  then have dr: "drop d rs = rs ! d # drop (Suc d) rs"
    by (simp add: Cons_nth_drop_Suc)
  show ?case
  proof (cases "map_of (children n) (rs ! d)")
    case None
    with lt dr show ?thesis by (auto simp: findNode.simps [of "Some n"])
  next
    case (Some c)
    have "findNode (Some c) rs (d + 1) = Inr (lookup c (drop (d + 1) rs))"
      using Suc.hyps(1) [of "d + 1" c] Suc.hyps(2) lt by simp
    with Some lt dr show ?thesis by (auto simp: findNode.simps [of "Some n"])
  qed
qed

lemma nodeAtPath_lookup: "nodeAtPath t k = Inr (lookup (root t) k)"
  using findNode_lookup [of 0 k "root t"] by (simp add: nodeAtPath_def)

subsection \<open>collect and the stored keys\<close>

lemma key_in_Nil [simp]: "key_in [] s = False"
  by (cases s) auto

lemma key_in_Cons:
  "key_in ((r, n) # cs) s \<longleftrightarrow>
     (s = [] \<and> term_n n) \<or> (\<exists>rs. s = r # rs \<and> \<not> term_n n \<and> key_in (children n) rs) \<or> key_in cs s"
  by (cases s) auto

lemma collect_sets:
  "set (collect n pre ks) = set ks \<union> {pre @ s |s. is_key n s}"
  "set (collect_loop cs pre ks) = set ks \<union> {pre @ s |s. key_in cs s}"
proof (induction n pre ks and cs pre ks rule: collect_collect_loop.induct)
  case (1 v t m cs pre keys)
  then show ?case by (simp add: is_key_def)
next
  case (2 pre keys)
  show ?case by simp
next
  case (3 r n cs pre keys)
  show ?case
  proof (cases "term_n n")
    case True
    with 3 show ?thesis by (auto simp: key_in_Cons)
  next
    case False
    with 3 show ?thesis by (auto simp: key_in_Cons is_key_def)
  qed
qed

lemma Keys_collect: "Keys t = Inr (collect (root t) [] [])"
  by (simp add: Keys_def PrefixSearch_def nodeAtPath_lookup)

lemma stored_is_key: "stored t k \<longleftrightarrow> is_key (root t) k"
  by (simp add: stored_def Keys_collect collect_sets)

subsection \<open>fuzzycollect\<close>

lemma npartial_simp:
  "(if v = hd (p # ps) then if 1 < length (p # ps) then tl (p # ps) else [] else p # ps)
     = (if v = p then ps else p # ps)"
  by (cases ps) auto

lemma fuzzy_sound:
  "x \<in> set (fuzzycollect n pm p ks) \<Longrightarrow> x \<in> set ks \<or> (\<exists>s. x = pm @ s \<and> subseq p s)"
  "x \<in> set (fuzzy_loop cs m pm p ks) \<Longrightarrow> p \<noteq> [] \<Longrightarrow> x \<in> set ks \<or> (\<exists>s. x = pm @ s \<and> subseq p s)"
proof (induction n pm p ks and cs m pm p ks rule: fuzzycollect_fuzzy_loop.induct)
  case (1 v t m cs pm p ks)
  show ?case
  proof (cases "p = []")
    case True
    with 1(2) show ?thesis by (auto simp: collect_sets)
  next
    case False
    with 1 show ?thesis by simp
  qed
next
  case (2 m pm p ks)
  then show ?case by simp
next
  case (3 v n cs m pm p ks)
  obtain q qs where p: "p = q # qs" using 3(5) by (cases p) auto
  show ?case
  proof (cases "(mask_n n XOR m) AND m \<noteq> 0")
    case True
    with 3(1) [OF refl True] 3(4,5) show ?thesis by simp
  next
    case False
    define np where "np = (if v = hd p then if 1 < length p then tl p else [] else p)"
    have np: "np = (if v = q then qs else q # qs)"
      unfolding np_def p by (rule npartial_simp)
    have mem: "x \<in> set (fuzzy_loop cs m pm p (fuzzycollect n (pm @ [v]) np ks))"
      using 3(4) False by (simp add: np_def Let_def)
    from 3(3) [OF refl False np_def mem 3(5)]
    show ?thesis
    proof
      assume "x \<in> set (fuzzycollect n (pm @ [v]) np ks)"
      from 3(2) [OF refl False np_def this]
      show ?thesis
      proof
        assume "x \<in> set ks" then show ?thesis by simp
      next
        assume "\<exists>s. x = (pm @ [v]) @ s \<and> subseq np s"
        then obtain s where s: "x = pm @ (v # s)" "subseq np s" by auto
        have "subseq p (v # s)" using s(2) by (auto simp: np p split: if_splits)
        with s(1) show ?thesis by blast
      qed
    next
      assume "\<exists>s. x = pm @ s \<and> subseq p s" then show ?thesis by simp
    qed
  qed
qed

lemma fuzzy_mono:
  "set ks \<subseteq> set (fuzzycollect n pm p ks)"
  "set ks \<subseteq> set (fuzzy_loop cs m pm p ks)"
proof (induction n pm p ks and cs m pm p ks rule: fuzzycollect_fuzzy_loop.induct)
  case (1 v t m cs pm p ks)
  then show ?case by (auto simp: collect_sets)
next
  case (2 m pm p ks)
  show ?case by simp
next
  case (3 v n cs m pm p ks)
  show ?case
  proof (cases "(mask_n n XOR m) AND m \<noteq> 0")
    case True
    with 3(1) [OF refl True] show ?thesis by simp
  next
    case False
    define np where "np = (if v = hd p then if 1 < length p then tl p else [] else p)"
    from 3(2) [OF refl False np_def] 3(3) [OF refl False np_def]
    show ?thesis using False by (auto simp: np_def Let_def)
  qed
qed

lemma wf_children_mem:
  "wf_children P cs \<Longrightarrow> (k, c) \<in> set cs \<Longrightarrow> P k c \<and> wf_node P c"
  by (induction cs) auto

lemma wf_node_children: "wf_node P n \<Longrightarrow> wf_children P (children n)"
  by (cases n) simp

lemma wf_node_distinct: "wf_node P n \<Longrightarrow> distinct (map fst (children n))"
  by (cases n) simp

lemma wf_node_iff: "wf_node P n \<longleftrightarrow> distinct (map fst (children n)) \<and> wf_children P (children n)"
  by (cases n) simp

lemma cover_ok_bits:
  "cover_ok k c \<longleftrightarrow> val c = k \<and> bits (maskrune k) \<union> bits (children_mask (children c)) \<subseteq> bits (mask_n c)"
  by (auto simp: cover_ok_def mask_recalculateMask or_absorb_bits)

lemma key_in_mask:
  "wf_children cover_ok cs \<Longrightarrow> key_in cs rs
     \<Longrightarrow> bits (maskruneslice rs) \<subseteq> bits (children_mask cs)"
proof (induction rs arbitrary: cs)
  case Nil
  show ?case by simp
next
  case (Cons r rs)
  from Cons.prems(2) obtain c where c: "(r, c) \<in> set cs" "key_in (children c) rs" by auto
  from wf_children_mem [OF Cons.prems(1) c(1)] have ok: "cover_ok r c" and wf: "wf_node cover_ok c"
    by simp_all
  have "bits (maskruneslice rs) \<subseteq> bits (children_mask (children c))"
    using Cons.IH [OF wf_node_children [OF wf] c(2)] .
  also have "\<dots> \<subseteq> bits (mask_n c)" using ok by (simp add: cover_ok_bits)
  also have "\<dots> \<subseteq> bits (children_mask cs)" using c(1) by (auto simp: bits_children_mask)
  finally have 1: "bits (maskruneslice rs) \<subseteq> bits (children_mask cs)" .
  have 2: "bits (maskrune r) \<subseteq> bits (children_mask cs)" using c(1) by (auto simp: bits_children_mask)
  from 1 2 show ?case by simp
qed

lemma subseq_mask: "subseq p s \<Longrightarrow> bits (maskruneslice p) \<subseteq> bits (maskruneslice s)"
  by (induction rule: list_emb.induct) auto

lemma fuzzy_complete:
  "wf_children cover_ok (children n) \<Longrightarrow> is_key n s \<Longrightarrow> subseq p s
     \<Longrightarrow> pm @ s \<in> set (fuzzycollect n pm p ks)"
  "wf_children cover_ok cs \<Longrightarrow> key_in cs s \<Longrightarrow> subseq p s \<Longrightarrow> p \<noteq> []
     \<Longrightarrow> m = maskruneslice p \<Longrightarrow> pm @ s \<in> set (fuzzy_loop cs m pm p ks)"
proof (induction n pm p ks and cs m pm p ks arbitrary: s and s rule: fuzzycollect_fuzzy_loop.induct)
  case (1 v t m cs pm p ks)
  show ?case
  proof (cases "p = []")
    case True
    with 1(3) show ?thesis by (auto simp: collect_sets is_key_def)
  next
    case False
    have "pm @ s \<in> set (fuzzy_loop cs (maskruneslice p) pm p ks)"
      using 1(1) [of s] 1(2,3,4) False by (simp add: is_key_def)
    with False show ?thesis by simp
  qed
next
  case (2 m pm p ks)
  then show ?case by simp
next
  case (3 v n cs m pm p ks)
  obtain q qs where p: "p = q # qs" using 3(7) by (cases p) auto
  obtain r rs where s: "s = r # rs" using 3(6) p by (cases s) auto
  define np where "np = (if v = hd p then if 1 < length p then tl p else [] else p)"
  have np: "np = (if v = q then qs else q # qs)"
    unfolding np_def p by (rule npartial_simp)
  have wfcs: "wf_children cover_ok cs" and ok: "cover_ok v n" and wfn: "wf_node cover_ok n"
    using 3(4) by simp_all
  from 3(5) consider
    (head) "r = v" "\<not> term_n n" "key_in (children n) rs" | (tail) "key_in cs s"
    by (auto simp: key_in_Cons s)
  then show ?case
  proof cases
    case head
    have "bits m \<subseteq> bits (maskruneslice (v # rs))"
      using subseq_mask [OF 3(6)] 3(8) by (simp add: s head(1))
    also have "\<dots> \<subseteq> bits (maskrune v) \<union> bits (children_mask (children n))"
      using key_in_mask [OF wf_node_children [OF wfn] head(3)] by auto
    also have "\<dots> \<subseteq> bits (mask_n n)" using ok by (simp add: cover_ok_bits)
    finally have keep: "\<not> (mask_n n XOR m) AND m \<noteq> 0" by (simp add: prune_test_bits)
    have sub: "subseq np rs" using 3(6) by (auto simp: np p s head(1) subseq_Cons2_iff split: if_splits)
    have "(pm @ [v]) @ rs \<in> set (fuzzycollect n (pm @ [v]) np ks)"
      using 3(2) [OF refl keep np_def wf_node_children [OF wfn] _ sub] head(3)
      by (simp add: is_key_def)
    then have "pm @ s \<in> set (fuzzycollect n (pm @ [v]) np ks)" by (simp add: s head(1))
    then have "pm @ s \<in> set (fuzzy_loop cs m pm p (fuzzycollect n (pm @ [v]) np ks))"
      using fuzzy_mono(2) by blast
    with keep show ?thesis by (simp add: np_def Let_def)
  next
    case tail
    show ?thesis
    proof (cases "(mask_n n XOR m) AND m \<noteq> 0")
      case True
      from 3(1) [OF refl True wfcs tail 3(6,7,8)] True show ?thesis by simp
    next
      case False
      from 3(3) [OF refl False np_def wfcs tail 3(6,7,8)] False show ?thesis
        by (simp add: np_def Let_def)
    qed
  qed
qed

lemma sorted_FuzzySearch: "sorted (FuzzySearch t p)"
  by (simp add: FuzzySearch_def)

lemma FuzzySearch_iff:
  assumes "wf_node cover_ok (root t)" "stored t k"
  shows "k \<in> set (FuzzySearch t p) \<longleftrightarrow> subseq p k"
proof
  assume "k \<in> set (FuzzySearch t p)"
  then have "k \<in> set (fuzzycollect (root t) [] p [])" by (simp add: FuzzySearch_def)
  from fuzzy_sound(1) [OF this] show "subseq p k" by simp
next
  assume "subseq p k"
  from fuzzy_complete(1) [OF wf_node_children [OF assms(1)] _ this, of "[]" "[]"] assms(2)
  show "k \<in> set (FuzzySearch t p)" by (simp add: FuzzySearch_def stored_is_key)
qed

subsection \<open>Association lists, well-formed nodes, addrune\<close>

lemma set_update_subset: "set (AList.update k v al) \<subseteq> insert (k, v) (set al)"
  by (induction al) (auto simp: AList.update.simps)

lemma set_update_distinct:
  "distinct (map fst al) \<Longrightarrow> set (AList.update k v al) = insert (k, v) {x \<in> set al. fst x \<noteq> k}"
  by (induction al) (auto simp: AList.update.simps rev_image_eqI)

lemma set_delete: "set (AList.delete k al) = {x \<in> set al. fst x \<noteq> k}"
  by (auto simp: AList.delete_eq)

lemma wf_children_iff:
  "wf_children P cs \<longleftrightarrow> (\<forall>(k, c) \<in> set cs. P k c \<and> wf_node P c)"
  by (induction cs) auto

lemma wf_children_update:
  "wf_children P cs \<Longrightarrow> P k c \<Longrightarrow> wf_node P c \<Longrightarrow> wf_children P (AList.update k c cs)"
  using set_update_subset [of k c cs] by (auto simp: wf_children_iff)

lemma wf_children_delete: "wf_children P cs \<Longrightarrow> wf_children P (AList.delete k cs)"
  by (auto simp: wf_children_iff set_delete)

lemma wf_children_map_of:
  "wf_children P cs \<Longrightarrow> map_of cs k = Some c \<Longrightarrow> P k c \<and> wf_node P c"
  by (auto simp: wf_children_iff dest: map_of_SomeD)

lemma wf_node_mono_aux:
  "(\<And>k c. P k c \<Longrightarrow> Q k c) \<Longrightarrow> wf_node P n \<Longrightarrow> wf_node Q n"
  "(\<And>k c. P k c \<Longrightarrow> Q k c) \<Longrightarrow> wf_children P cs \<Longrightarrow> wf_children Q cs"
  by (induction P n and P cs rule: wf_node_wf_children.induct) auto

lemma wf_node_set_mask [simp]: "wf_node P (set_mask n m) = wf_node P n"
  by (cases n) (simp add: set_mask_def)

lemma set_mask_sel [simp]:
  "val (set_mask n m) = val n" "term_n (set_mask n m) = term_n n"
  "mask_n (set_mask n m) = m" "children (set_mask n m) = children n"
  by (simp_all add: set_mask_def)

lemma set_children_sel [simp]:
  "val (set_children n cs) = val n" "term_n (set_children n cs) = term_n n"
  "mask_n (set_children n cs) = mask_n n" "children (set_children n cs) = cs"
  by (simp_all add: set_children_def)

lemma recalculateMask_sel [simp]:
  "val (recalculateMask n) = val n" "term_n (recalculateMask n) = term_n n"
  "children (recalculateMask n) = children n"
  by (simp_all add: recalculateMask_def)

lemma newNode_sel [simp]:
  "val (newNode v m t) = v" "term_n (newNode v m t) = t"
  "mask_n (newNode v m t) = m" "children (newNode v m t) = []"
  by (simp_all add: newNode_def)

lemma set_children_twice [simp]: "set_children (set_children n a) b = set_children n b"
  by (simp add: set_children_def)

lemma set_children_same [simp]: "set_children n (children n) = n"
  by (cases n) (simp add: set_children_def)

lemma set_mask_same: "m = mask_n n \<Longrightarrow> set_mask n m = n"
  by (cases n) (simp add: set_mask_def)

lemma wf_newNode [simp]: "wf_node P (newNode v m t)"
  by (simp add: newNode_def)

text \<open>addrune, with the two branches of the lookup merged.\<close>


lemma addrune_Nil_fst:
  "fst (addrune node [] i) = set_children node (AList.update 0 sentinel (children node))"
  by (simp add: NewChild_def sentinel_def Let_def)

lemma addrune_Cons_fst:
  "fst (addrune node (r # rs) i) =
     set_children node (AList.update r
       (fst (addrune (set_mask (child_or_new node r (maskruneslice (r # rs)))
                        (mask_n (child_or_new node r (maskruneslice (r # rs))) OR maskruneslice (r # rs)))
               rs (i + 1)))
       (children node))"
  by (cases "map_of (children node) r")
     (simp_all add: child_or_new_def NewChild_def Let_def case_prod_beta del: maskruneslice_Cons)

lemma addrune_snd: "snd (addrune node rs i) = i + int (length rs)"
proof (induction rs arbitrary: node i)
  case Nil
  show ?case by simp
next
  case (Cons r rs)
  show ?case
    by (cases "map_of (children node) r")
       (simp_all add: Let_def NewChild_def Cons.IH case_prod_beta del: maskruneslice_Cons)
qed

declare addrune.simps [simp del]

subsection \<open>Add keeps the masks covering\<close>

lemma bits_children_mask_update_le:
  "bits (children_mask (AList.update k c cs))
     \<subseteq> bits (children_mask cs) \<union> bits (maskrune k) \<union> bits (mask_n c)"
  using set_update_subset [of k c cs] by (fastforce simp: bits_children_mask)

lemma bits_children_mask_update_eq:
  assumes "distinct (map fst cs)"
    and "\<And>c0. map_of cs k = Some c0 \<Longrightarrow> bits (mask_n c0) \<subseteq> bits (maskrune k) \<union> bits (mask_n c)"
  shows "bits (children_mask (AList.update k c cs))
           = bits (children_mask cs) \<union> bits (maskrune k) \<union> bits (mask_n c)"
proof
  show "bits (children_mask (AList.update k c cs))
          \<subseteq> bits (children_mask cs) \<union> bits (maskrune k) \<union> bits (mask_n c)"
    by (rule bits_children_mask_update_le)
next
  show "bits (children_mask cs) \<union> bits (maskrune k) \<union> bits (mask_n c)
          \<subseteq> bits (children_mask (AList.update k c cs))"
  proof
    fix i assume i: "i \<in> bits (children_mask cs) \<union> bits (maskrune k) \<union> bits (mask_n c)"
    have new: "bits (maskrune k) \<union> bits (mask_n c) \<subseteq> bits (children_mask (AList.update k c cs))"
      by (auto simp: bits_children_mask set_update_distinct [OF assms(1)])
    show "i \<in> bits (children_mask (AList.update k c cs))"
    proof (cases "i \<in> bits (maskrune k) \<union> bits (mask_n c)")
      case True
      with new show ?thesis by blast
    next
      case False
      with i obtain k' c' where kc: "(k', c') \<in> set cs" "i \<in> bits (maskrune k') \<union> bits (mask_n c')"
        by (auto simp: bits_children_mask)
      show ?thesis
      proof (cases "k' = k")
        case True
        with kc(1) assms(1) have "map_of cs k = Some c'" by simp
        from assms(2) [OF this] kc(2) True False show ?thesis by auto
      next
        case False
        with kc have "(k', c') \<in> set (AList.update k c cs)"
          by (simp add: set_update_distinct [OF assms(1)])
        with kc(2) show ?thesis by (auto simp: bits_children_mask)
      qed
    qed
  qed
qed

lemma child_or_new_cover:
  assumes "wf_node cover_ok node"
  shows "cover_ok r (child_or_new node r (maskruneslice (r # rs)))"
    and "wf_node cover_ok (child_or_new node r (maskruneslice (r # rs)))"
proof -
  show "cover_ok r (child_or_new node r (maskruneslice (r # rs)))"
  proof (cases "map_of (children node) r")
    case None
    then show ?thesis by (simp add: child_or_new_def cover_ok_bits)
  next
    case (Some c)
    with wf_children_map_of [OF wf_node_children [OF assms] Some]
    show ?thesis by (simp add: child_or_new_def)
  qed
  show "wf_node cover_ok (child_or_new node r (maskruneslice (r # rs)))"
  proof (cases "map_of (children node) r")
    case None
    then show ?thesis by (simp add: child_or_new_def)
  next
    case (Some c)
    with wf_children_map_of [OF wf_node_children [OF assms] Some]
    show ?thesis by (simp add: child_or_new_def)
  qed
qed

lemma child_or_new_mask_le:
  "bits (mask_n (child_or_new node r bm)) \<subseteq> bits (children_mask (children node)) \<union> bits bm"
proof (cases "map_of (children node) r")
  case None
  then show ?thesis by (simp add: child_or_new_def)
next
  case (Some c)
  then have "(r, c) \<in> set (children node)" by (rule map_of_SomeD)
  then have "bits (mask_n c) \<subseteq> bits (children_mask (children node))"
    by (auto simp: bits_children_mask)
  with Some show ?thesis by (auto simp: child_or_new_def)
qed

lemma sentinel_sel [simp]:
  "val sentinel = 0" "term_n sentinel" "mask_n sentinel = 0" "children sentinel = []"
  by (simp_all add: sentinel_def nul_def)

lemma wf_sentinel [simp]: "wf_node P sentinel"
  by (simp add: sentinel_def)

lemma addrune_cover:
  "wf_node cover_ok n \<Longrightarrow>
     wf_node cover_ok (fst (addrune n rs i)) \<and>
     val (fst (addrune n rs i)) = val n \<and>
     mask_n (fst (addrune n rs i)) = mask_n n \<and>
     bits (children_mask (children (fst (addrune n rs i))))
        \<subseteq> bits (children_mask (children n)) \<union> bits (maskruneslice rs)"
proof (induction rs arbitrary: n i)
  case Nil
  have d: "distinct (map fst (AList.update 0 sentinel (children n)))"
    using wf_node_distinct [OF Nil] by (rule distinct_update)
  have w: "wf_children cover_ok (AList.update 0 sentinel (children n))"
    using wf_node_children [OF Nil] by (rule wf_children_update) (simp_all add: cover_ok_bits)
  have m: "bits (children_mask (AList.update 0 sentinel (children n)))
             \<subseteq> bits (children_mask (children n))"
    using bits_children_mask_update_le [of 0 sentinel "children n"] by simp
  from d w m show ?case by (simp add: addrune_Nil_fst wf_node_iff)
next
  case (Cons r rs)
  define bm where "bm = maskruneslice (r # rs)"
  define n0 where "n0 = child_or_new n r bm"
  define n1 where "n1 = set_mask n0 (mask_n n0 OR bm)"
  define n2 where "n2 = fst (addrune n1 rs (i + 1))"
  have res: "fst (addrune n (r # rs) i) = set_children n (AList.update r n2 (children n))"
    unfolding n2_def n1_def n0_def bm_def by (rule addrune_Cons_fst)
  have ok0: "cover_ok r n0" and wf0: "wf_node cover_ok n0"
    unfolding n0_def bm_def by (rule child_or_new_cover [OF Cons.prems])+
  have wf1: "wf_node cover_ok n1" using wf0 by (simp add: n1_def)
  from Cons.IH [OF wf1, of "i + 1"]
  have wf2: "wf_node cover_ok n2" and v2: "val n2 = val n1" and m2: "mask_n n2 = mask_n n1"
    and c2: "bits (children_mask (children n2))
               \<subseteq> bits (children_mask (children n1)) \<union> bits (maskruneslice rs)"
    by (simp_all add: n2_def)
  have bm: "bits bm = bits (maskrune r) \<union> bits (maskruneslice rs)" by (simp add: bm_def)
  have ok2: "cover_ok r n2"
    using ok0 c2 by (auto simp: cover_ok_bits v2 m2 n1_def bm)
  have d: "distinct (map fst (AList.update r n2 (children n)))"
    using wf_node_distinct [OF Cons.prems] by (rule distinct_update)
  have w: "wf_children cover_ok (AList.update r n2 (children n))"
    using wf_node_children [OF Cons.prems] ok2 wf2 by (rule wf_children_update)
  have "bits (children_mask (AList.update r n2 (children n)))
          \<subseteq> bits (children_mask (children n)) \<union> bits (maskrune r) \<union> bits (mask_n n2)"
    by (rule bits_children_mask_update_le)
  also have "\<dots> \<subseteq> bits (children_mask (children n)) \<union> bits bm"
    using child_or_new_mask_le [of n r bm] by (auto simp: m2 n1_def n0_def bm)
  finally have m: "bits (children_mask (AList.update r n2 (children n)))
          \<subseteq> bits (children_mask (children n)) \<union> bits (maskruneslice (r # rs))"
    by (simp add: bm_def)
  from d w m show ?case unfolding res by (simp add: wf_node_iff del: maskruneslice_Cons)
qed

subsection \<open>Remove\<close>

lemma RemoveChild_sel [simp]:
  "val (RemoveChild n r) = val n" "term_n (RemoveChild n r) = term_n n"
  "children (RemoveChild n r) = AList.delete r (children n)"
  "mask_n (RemoveChild n r) = maskrune (val n) OR children_mask (AList.delete r (children n))"
  by (simp_all add: RemoveChild_def mask_recalculateMask)

lemma RemoveChild_at_shape:
  "RemoveChild_at n path r = n \<or>
     (val (RemoveChild_at n path r) = val n \<and> term_n (RemoveChild_at n path r) = term_n n \<and>
      mask_n (RemoveChild_at n path r)
        = maskrune (val n) OR children_mask (children (RemoveChild_at n path r)))"
proof (cases path)
  case Nil
  then show ?thesis by simp
next
  case (Cons p ps)
  then show ?thesis by (cases "map_of (children n) p") (simp_all add: mask_recalculateMask)
qed

lemma RemoveChild_at_cover_ok: "cover_ok k n \<Longrightarrow> cover_ok k (RemoveChild_at n path r)"
  using RemoveChild_at_shape [of n path r] by (auto simp: cover_ok_bits)

lemma RemoveChild_at_wf:
  assumes P: "\<And>k n path. P k n \<Longrightarrow> P k (RemoveChild_at n path r)"
  shows "wf_node P n \<Longrightarrow> wf_node P (RemoveChild_at n path r)"
proof (induction path arbitrary: n)
  case Nil
  from wf_node_distinct [OF Nil] wf_node_children [OF Nil]
  show ?case by (simp add: wf_node_iff distinct_delete wf_children_delete)
next
  case (Cons p ps)
  show ?case
  proof (cases "map_of (children n) p")
    case None
    with Cons.prems show ?thesis by simp
  next
    case (Some c)
    from wf_children_map_of [OF wf_node_children [OF Cons.prems] Some]
    have "P p c" "wf_node P c" by simp_all
    then have "P p (RemoveChild_at c ps r)" "wf_node P (RemoveChild_at c ps r)"
      using P Cons.IH by simp_all
    then have "wf_children P (AList.update p (RemoveChild_at c ps r) (children n))"
      using wf_node_children [OF Cons.prems] by (simp add: wf_children_update)
    moreover have "distinct (map fst (AList.update p (RemoveChild_at c ps r) (children n)))"
      using wf_node_distinct [OF Cons.prems] by (rule distinct_update)
    ultimately show ?thesis using Some by (simp add: wf_node_iff)
  qed
qed

text \<open>The upward walk of Remove.\<close>

lemma length_pathNodes: "lookup n rs = Some x \<Longrightarrow> length (pathNodes n rs) = Suc (length rs)"
  by (induction rs arbitrary: n) (auto split: option.splits)

lemma length_parentChain:
  "lookup (root t) key = Some x \<Longrightarrow> length (parentChain t key) = length key"
  by (simp add: parentChain_def length_pathNodes)

lemma Remove_loop_result:
  "int (length ns) + i = int (length rs) \<Longrightarrow> 0 \<le> i \<Longrightarrow>
     (Remove_loop ns rs i = Inr None \<and> (\<forall>n \<in> set ns. length (children n) \<le> 1)) \<or>
     (\<exists>d < length ns. Remove_loop ns rs i = Inr (Some (d, rs ! d)))"
proof (induction ns arbitrary: i)
  case Nil
  show ?case by simp
next
  case (Cons n ns)
  show ?case
  proof (cases "length (children n) > 1")
    case True
    have "nat (int (length rs) - (i + 1)) = length ns" using Cons.prems by simp
    with True Cons.prems show ?thesis by (simp add: Let_def)
  next
    case False
    from Cons.IH [of "i + 1"] Cons.prems False show ?thesis by (auto simp: Let_def)
  qed
qed

lemma Remove_loop_single:
  "\<forall>n \<in> set ns. length (children n) \<le> 1 \<Longrightarrow> Remove_loop ns rs i = Inr None"
  by (induction ns arbitrary: i) (auto simp: Let_def)

lemma parentChain_size [simp]: "parentChain (t\<lparr>size_n := s\<rparr>) key = parentChain t key"
  by (simp add: parentChain_def)

lemma Remove_found:
  assumes "lookup (root t) key = Some x"
  shows "\<exists>t'. Remove t key = Inr t' \<and> size_n t' = size_n t - 1 \<and>
           (root t' = root t \<or>
            (\<exists>d < length key. root t' = RemoveChild_at (root t) (take d key) (key ! d)))"
proof -
  have len: "int (length (parentChain t key)) + 0 = int (length key)"
    using length_parentChain [OF assms] by simp
  have "(0::int) \<le> 0" by simp
  from Remove_loop_result [OF len this]
  show ?thesis
  proof
    assume "Remove_loop (parentChain t key) key 0 = Inr None \<and>
            (\<forall>n \<in> set (parentChain t key). length (children n) \<le> 1)"
    then show ?thesis by (simp add: Remove_def nodeAtPath_lookup assms Let_def)
  next
    assume "\<exists>d < length (parentChain t key). Remove_loop (parentChain t key) key 0 = Inr (Some (d, key ! d))"
    then obtain d where "d < length key" "Remove_loop (parentChain t key) key 0 = Inr (Some (d, key ! d))"
      using length_parentChain [OF assms] by auto
    then show ?thesis by (auto simp: Remove_def nodeAtPath_lookup assms Let_def)
  qed
qed

lemma Remove_not_found:
  "lookup (root t) key = None \<Longrightarrow> Remove t key = Inl NilDereference"
  by (simp add: Remove_def nodeAtPath_lookup Let_def)

lemma Remove_Inr_cases:
  assumes "Remove t key = Inr t'"
  shows "size_n t' = size_n t - 1 \<and>
           (root t' = root t \<or>
            (\<exists>d < length key. root t' = RemoveChild_at (root t) (take d key) (key ! d)))"
proof (cases "lookup (root t) key")
  case None
  with Remove_not_found [OF None] assms show ?thesis by simp
next
  case (Some x)
  from Remove_found [OF Some] assms show ?thesis by auto
qed

lemma Add_root: "root (fst (Add t key)) = fst (addrune (root t) key 0)"
  by (simp add: Add_def Let_def case_prod_beta)

lemma Add_size: "size_n (fst (Add t key)) = size_n t + 1"
  by (simp add: Add_def Let_def case_prod_beta)

lemma Add_snd: "snd (Add t key) = int (length key)"
  by (simp add: Add_def Let_def case_prod_beta addrune_snd)

lemma built_cover: "built ok t \<Longrightarrow> wf_node cover_ok (root t)"
proof (induction rule: built.induct)
  case built_Create
  show ?case by (simp add: CreateTrie_def)
next
  case (built_Add t key)
  then show ?case using addrune_cover [of "root t" key 0] by (simp add: Add_root)
next
  case (built_Remove t key t')
  have "wf_node cover_ok (RemoveChild_at (root t) path r)" for path r
  proof (rule RemoveChild_at_wf)
    show "\<And>k n path. cover_ok k n \<Longrightarrow> cover_ok k (RemoveChild_at n path r)"
      by (rule RemoveChild_at_cover_ok)
    show "wf_node cover_ok (root t)" by (rule built_Remove.IH)
  qed
  with Remove_Inr_cases [OF built_Remove.hyps(2)] built_Remove.IH
  show ?case by auto
qed

subsection \<open>Adding a list of keys\<close>

lemma AddAll_Nil [simp]: "AddAll t [] = t"
  by (simp add: AddAll_def)

lemma AddAll_Cons [simp]: "AddAll t (k # ks) = AddAll (fst (Add t k)) ks"
  by (simp add: AddAll_def)

lemma built_AddAll: "built ok t \<Longrightarrow> \<forall>k \<in> set ks. ok k \<Longrightarrow> built ok (AddAll t ks)"
  by (induction ks arbitrary: t) (auto intro: built_Add)

subsection \<open>The exact masks of tries built from keys without the code point 0\<close>

lemma exact_ok_bits:
  "exact_ok k c \<longleftrightarrow>
     val c = k \<and> (term_n c \<longrightarrow> k = 0) \<and> (k = 0 \<longrightarrow> c = sentinel) \<and>
     bits (mask_n c) = bits (maskrune k) \<union> bits (children_mask (children c))"
  by (auto simp: exact_ok_def mask_recalculateMask bits_inject [symmetric])

lemma exact_imp_cover: "exact_ok k c \<Longrightarrow> cover_ok k c"
  by (simp add: exact_ok_bits cover_ok_bits)

lemma wf_exact_imp_cover: "wf_node exact_ok n \<Longrightarrow> wf_node cover_ok n"
  by (rule wf_node_mono_aux(1) [OF exact_imp_cover])

lemma child_or_new_exact:
  assumes "wf_node exact_ok node" and "r \<noteq> 0"
  shows "wf_node exact_ok (child_or_new node r (maskruneslice (r # rs)))"
    and "val (child_or_new node r (maskruneslice (r # rs))) = r"
    and "\<not> term_n (child_or_new node r (maskruneslice (r # rs)))"
    and "bits (mask_n (child_or_new node r (maskruneslice (r # rs)))) \<union> bits (maskruneslice (r # rs))
           = bits (maskrune r)
             \<union> bits (children_mask (children (child_or_new node r (maskruneslice (r # rs)))))
             \<union> bits (maskruneslice rs)"
proof -
  let ?n0 = "child_or_new node r (maskruneslice (r # rs))"
  have "wf_node exact_ok ?n0 \<and> val ?n0 = r \<and> \<not> term_n ?n0 \<and>
        bits (mask_n ?n0) \<union> bits (maskruneslice (r # rs))
           = bits (maskrune r) \<union> bits (children_mask (children ?n0)) \<union> bits (maskruneslice rs)"
  proof (cases "map_of (children node) r")
    case None
    then show ?thesis by (auto simp: child_or_new_def)
  next
    case (Some c)
    from wf_children_map_of [OF wf_node_children [OF assms(1)] Some] assms(2) Some
    show ?thesis by (auto simp: child_or_new_def exact_ok_bits)
  qed
  then show "wf_node exact_ok ?n0" "val ?n0 = r" "\<not> term_n ?n0"
    "bits (mask_n ?n0) \<union> bits (maskruneslice (r # rs))
           = bits (maskrune r) \<union> bits (children_mask (children ?n0)) \<union> bits (maskruneslice rs)"
    by simp_all
qed

lemma map_of_sentinel:
  "wf_children exact_ok cs \<Longrightarrow> map_of cs 0 = Some c \<Longrightarrow> c = sentinel"
  using wf_children_map_of [of exact_ok cs 0 c] by (simp add: exact_ok_def)

lemma addrune_exact:
  "wf_node exact_ok n \<Longrightarrow> nul_free rs \<Longrightarrow>
     wf_node exact_ok (fst (addrune n rs i)) \<and>
     val (fst (addrune n rs i)) = val n \<and>
     term_n (fst (addrune n rs i)) = term_n n \<and>
     mask_n (fst (addrune n rs i)) = mask_n n \<and>
     bits (children_mask (children (fst (addrune n rs i))))
        = bits (children_mask (children n)) \<union> bits (maskruneslice rs)"
proof (induction rs arbitrary: n i)
  case Nil
  have d0: "distinct (map fst (children n))" using Nil(1) by (rule wf_node_distinct)
  have d: "distinct (map fst (AList.update 0 sentinel (children n)))"
    using d0 by (rule distinct_update)
  have w: "wf_children exact_ok (AList.update 0 sentinel (children n))"
    using wf_node_children [OF Nil(1)] by (rule wf_children_update) (simp_all add: exact_ok_bits)
  have "bits (children_mask (AList.update 0 sentinel (children n)))
          = bits (children_mask (children n)) \<union> bits (maskrune 0) \<union> bits (mask_n sentinel)"
    using d0
  proof (rule bits_children_mask_update_eq)
    fix c0 assume "map_of (children n) 0 = Some c0"
    from map_of_sentinel [OF wf_node_children [OF Nil(1)] this]
    show "bits (mask_n c0) \<subseteq> bits (maskrune 0) \<union> bits (mask_n sentinel)" by simp
  qed
  with d w show ?case by (simp add: addrune_Nil_fst wf_node_iff)
next
  case (Cons r rs)
  from Cons.prems(2) have r0: "r \<noteq> 0" and nf: "nul_free rs" by (auto simp: nul_free_def nul_def)
  define bm where "bm = maskruneslice (r # rs)"
  define n0 where "n0 = child_or_new n r bm"
  define n1 where "n1 = set_mask n0 (mask_n n0 OR bm)"
  define n2 where "n2 = fst (addrune n1 rs (i + 1))"
  have res: "fst (addrune n (r # rs) i) = set_children n (AList.update r n2 (children n))"
    unfolding n2_def n1_def n0_def bm_def by (rule addrune_Cons_fst)
  note c = child_or_new_exact [OF Cons.prems(1) r0, of rs, folded bm_def, folded n0_def]
  have wf1: "wf_node exact_ok n1" using c(1) by (simp add: n1_def)
  from Cons.IH [OF wf1 nf, of "i + 1"]
  have wf2: "wf_node exact_ok n2" and v2: "val n2 = r" and t2: "\<not> term_n n2"
    and m2: "mask_n n2 = mask_n n0 OR bm"
    and c2: "bits (children_mask (children n2))
               = bits (children_mask (children n0)) \<union> bits (maskruneslice rs)"
    using c(2,3) by (simp_all add: n2_def n1_def)
  have ok2: "exact_ok r n2"
    using c(4) r0 by (auto simp: exact_ok_bits v2 t2 m2 c2)
  have d0: "distinct (map fst (children n))" using Cons.prems(1) by (rule wf_node_distinct)
  have d: "distinct (map fst (AList.update r n2 (children n)))"
    using d0 by (rule distinct_update)
  have w: "wf_children exact_ok (AList.update r n2 (children n))"
    using wf_node_children [OF Cons.prems(1)] ok2 wf2 by (rule wf_children_update)
  have "bits (children_mask (AList.update r n2 (children n)))
          = bits (children_mask (children n)) \<union> bits (maskrune r) \<union> bits (mask_n n2)"
    using d0
  proof (rule bits_children_mask_update_eq)
    fix c0 assume "map_of (children n) r = Some c0"
    then have "n0 = c0" by (simp add: n0_def child_or_new_def)
    then show "bits (mask_n c0) \<subseteq> bits (maskrune r) \<union> bits (mask_n n2)" by (auto simp: m2)
  qed
  also have "\<dots> = bits (children_mask (children n)) \<union> bits bm"
    using child_or_new_mask_le [of n r bm] by (auto simp: m2 n0_def bm_def)
  finally have m: "bits (children_mask (AList.update r n2 (children n)))
          = bits (children_mask (children n)) \<union> bits (maskruneslice (r # rs))"
    by (simp add: bm_def)
  from d w m show ?case unfolding res by (simp add: wf_node_iff del: maskruneslice_Cons)
qed

lemma RemoveChild_at_sentinel: "RemoveChild_at sentinel path r = sentinel"
proof (cases path)
  case Nil
  then show ?thesis
    by (simp add: RemoveChild_def recalculateMask_def sentinel_def newNode_def set_children_def
        set_mask_def nul_def)
next
  case (Cons p ps)
  then show ?thesis by simp
qed

lemma RemoveChild_at_exact_ok: "exact_ok k n \<Longrightarrow> exact_ok k (RemoveChild_at n path r)"
  using RemoveChild_at_shape [of n path r]
  by (auto simp: exact_ok_bits RemoveChild_at_sentinel)

lemma built_mono: "built ok t \<Longrightarrow> built any_key t"
  by (induction rule: built.induct) (auto intro: built.intros simp: any_key_def)

lemma built_exact: "built nul_free t \<Longrightarrow> wf_node exact_ok (root t)"
proof (induction rule: built.induct)
  case built_Create
  show ?case by (simp add: CreateTrie_def)
next
  case (built_Add t key)
  then show ?case using addrune_exact [of "root t" key 0] by (simp add: Add_root)
next
  case (built_Remove t key t')
  have "wf_node exact_ok (RemoveChild_at (root t) path r)" for path r
  proof (rule RemoveChild_at_wf)
    show "\<And>k n path. exact_ok k n \<Longrightarrow> exact_ok k (RemoveChild_at n path r)"
      by (rule RemoveChild_at_exact_ok)
    show "wf_node exact_ok (root t)" by (rule built_Remove.IH)
  qed
  with Remove_Inr_cases [OF built_Remove.hyps(2)] built_Remove.IH
  show ?case by auto
qed

lemma spec_mask_recalculate:
  assumes "wf_children exact_ok (children n)"
  shows "spec_mask n = mask_n (recalculateMask n)"
proof -
  have "fold (\<lambda>(k, c) m. m OR (maskrune (val c) OR mask_n c)) cs a
          = fold (\<lambda>(k, c) m. m OR (maskrune k OR mask_n c)) cs a"
    if "wf_children exact_ok cs" for cs a
    using that by (induction cs arbitrary: a) (auto simp: exact_ok_def)
  from this [OF assms] show ?thesis by (simp add: spec_mask_def recalculateMask_def)
qed

lemma descendants_mask_invariant:
  "wf_node exact_ok n \<Longrightarrow> \<forall>x \<in> set (descendants n). mask_invariant x"
  "wf_children exact_ok cs \<Longrightarrow> \<forall>x \<in> set (descendants_list cs). mask_invariant x"
proof (induction n and cs rule: descendants_descendants_list.induct)
  case (1 v t m cs)
  then show ?case by simp
next
  case 2
  show ?case by simp
next
  case (3 k c cs)
  from 3(3) have ok: "exact_ok k c" and wfc: "wf_node exact_ok c" and wfcs: "wf_children exact_ok cs"
    by simp_all
  have "mask_invariant c"
    using ok spec_mask_recalculate [OF wf_node_children [OF wfc]]
    by (simp add: mask_invariant_def exact_ok_def)
  with 3(1) [OF wfc] 3(2) [OF wfcs] show ?case by auto
qed

subsection \<open>The keys after Add\<close>

lemma key_in_update_Nil:
  "distinct (map fst cs) \<Longrightarrow>
     key_in (AList.update k c cs) [] \<longleftrightarrow> term_n c \<or> (\<exists>(k', c') \<in> set cs. k' \<noteq> k \<and> term_n c')"
  by (auto simp: set_update_distinct)

lemma key_in_update_Cons:
  "distinct (map fst cs) \<Longrightarrow>
     key_in (AList.update k c cs) (r # rs) \<longleftrightarrow>
       (if r = k then \<not> term_n c \<and> key_in (children c) rs else key_in cs (r # rs))"
  by (auto simp: set_update_distinct)

lemma key_in_Cons_ex:
  "key_in cs (r # rs) \<longleftrightarrow> (\<exists>c. (r, c) \<in> set cs \<and> \<not> term_n c \<and> key_in (children c) rs)"
  by auto

lemma child_or_new_key_in:
  assumes "distinct (map fst (children node))"
  shows "(\<exists>c. (r, c) \<in> set (children node) \<and> \<not> term_n c \<and> key_in (children c) s)
           \<longleftrightarrow> \<not> term_n (child_or_new node r bm) \<and> key_in (children (child_or_new node r bm)) s
               \<and> map_of (children node) r \<noteq> None"
proof (cases "map_of (children node) r")
  case None
  then have "r \<notin> fst ` set (children node)" by (simp add: map_of_eq_None_iff)
  then have "\<And>c. (r, c) \<notin> set (children node)" by force
  with None show ?thesis by (simp add: child_or_new_def)
next
  case (Some c)
  then have "\<And>c'. (r, c') \<in> set (children node) \<longleftrightarrow> c' = c"
    using map_of_eq_Some_iff [OF assms, of r] by (metis option.inject)
  with Some show ?thesis by (simp add: child_or_new_def)
qed

lemma addrune_keys:
  "wf_node exact_ok n \<Longrightarrow> nul_free rs \<Longrightarrow>
     is_key (fst (addrune n rs i)) s \<longleftrightarrow> s = rs \<or> is_key n s"
proof (induction rs arbitrary: n i s)
  case Nil
  have d0: "distinct (map fst (children n))" using Nil(1) by (rule wf_node_distinct)
  have sent: "c = sentinel" if "(0, c) \<in> set (children n)" for c
    using wf_children_mem [OF wf_node_children [OF Nil(1)] that] by (simp add: exact_ok_def)
  show ?case
  proof (cases s)
    case Nil
    then show ?thesis by (simp add: is_key_def addrune_Nil_fst key_in_update_Nil [OF d0] del: key_in.simps)
  next
    case (Cons r s')
    show ?thesis
    proof (cases "r = 0")
      case True
      have "\<not> key_in (children n) (0 # s')" by (auto dest: sent)
      with True Cons show ?thesis
        by (simp add: is_key_def addrune_Nil_fst key_in_update_Cons [OF d0] del: key_in.simps)
    next
      case False
      with Cons show ?thesis
        by (simp add: is_key_def addrune_Nil_fst key_in_update_Cons [OF d0] del: key_in.simps)
    qed
  qed
next
  case (Cons r rs)
  from Cons.prems(2) have r0: "r \<noteq> 0" and nf: "nul_free rs" by (auto simp: nul_free_def nul_def)
  define bm where "bm = maskruneslice (r # rs)"
  define n0 where "n0 = child_or_new n r bm"
  define n1 where "n1 = set_mask n0 (mask_n n0 OR bm)"
  define n2 where "n2 = fst (addrune n1 rs (i + 1))"
  have res: "fst (addrune n (r # rs) i) = set_children n (AList.update r n2 (children n))"
    unfolding n2_def n1_def n0_def bm_def by (rule addrune_Cons_fst)
  note c = child_or_new_exact [OF Cons.prems(1) r0, of rs, folded bm_def, folded n0_def]
  have wf1: "wf_node exact_ok n1" using c(1) by (simp add: n1_def)
  have t2: "\<not> term_n n2" using addrune_exact [OF wf1 nf, of "i + 1"] c(3) by (simp add: n2_def n1_def)
  have keys2: "is_key n2 s' \<longleftrightarrow> s' = rs \<or> key_in (children n0) s'" for s'
    using Cons.IH [OF wf1 nf, of "i + 1" s'] by (simp add: n2_def is_key_def n1_def)
  have d0: "distinct (map fst (children n))" using Cons.prems(1) by (rule wf_node_distinct)
  have notterm: "\<not> term_n c" if "(r, c) \<in> set (children n)" for c
    using wf_children_mem [OF wf_node_children [OF Cons.prems(1)] that] r0 by (auto simp: exact_ok_def)
  show ?case
  proof (cases s)
    case Nil
    have "(\<exists>(k', c') \<in> set (children n). k' \<noteq> r \<and> term_n c') \<longleftrightarrow> key_in (children n) []"
    proof
      assume "\<exists>(k', c') \<in> set (children n). k' \<noteq> r \<and> term_n c'"
      then show "key_in (children n) []" by auto
    next
      assume "key_in (children n) []"
      then obtain k' c' where kc: "(k', c') \<in> set (children n)" "term_n c'" by auto
      with notterm [of c'] have "k' \<noteq> r" by auto
      with kc show "\<exists>(k', c') \<in> set (children n). k' \<noteq> r \<and> term_n c'" by auto
    qed
    with Nil t2 show ?thesis by (simp add: res is_key_def key_in_update_Nil [OF d0] del: key_in.simps)
  next
    case (Cons r' s')
    show ?thesis
    proof (cases "r' = r")
      case True
      have rhs: "is_key n s \<longleftrightarrow> key_in (children n0) s' \<and> map_of (children n) r \<noteq> None"
        using child_or_new_key_in [OF d0, of r s' bm] c(3)
        by (simp add: n0_def is_key_def Cons True key_in_Cons_ex del: key_in.simps)
      have imp: "key_in (children n0) s' \<Longrightarrow> map_of (children n) r \<noteq> None"
        by (cases "map_of (children n) r") (auto simp: n0_def child_or_new_def)
      have lhs: "is_key (fst (addrune n (r # rs) i)) s \<longleftrightarrow> is_key n2 s'"
        using t2 by (simp add: res is_key_def key_in_update_Cons [OF d0] Cons True del: key_in.simps)
      have "s = r # rs \<longleftrightarrow> s' = rs" by (simp add: Cons True)
      with lhs rhs keys2 [of s'] imp show ?thesis by blast
    next
      case False
      with Cons show ?thesis
        by (simp add: res is_key_def key_in_update_Cons [OF d0] del: key_in.simps)
    qed
  qed
qed

lemma is_key_lookup:
  "distinct (map fst (children n)) \<Longrightarrow> wf_children P (children n) \<Longrightarrow> is_key n s
     \<Longrightarrow> \<exists>x. lookup n s = Some x"
proof (induction s arbitrary: n)
  case Nil
  show ?case by simp
next
  case (Cons r s)
  from Cons.prems(3) obtain c where c: "(r, c) \<in> set (children n)" "key_in (children c) s"
    by (auto simp: is_key_def)
  from c(1) Cons.prems(1) have m: "map_of (children n) r = Some c" by simp
  from wf_children_mem [OF Cons.prems(2) c(1)] have "wf_node P c" by simp
  from Cons.IH [OF wf_node_distinct [OF this] wf_node_children [OF this]] c(2) m
  show ?case by (simp add: is_key_def)
qed

lemma stored_lookup:
  "built ok t \<Longrightarrow> stored t k \<Longrightarrow> \<exists>x. lookup (root t) k = Some x"
  using is_key_lookup [of "root t" cover_ok k] built_cover [of ok t]
  by (simp add: stored_is_key wf_node_iff)

lemma addrune_readd:
  "wf_node exact_ok n \<Longrightarrow> is_key n rs \<Longrightarrow> fst (addrune n rs i) = n"
proof (induction rs arbitrary: n i)
  case Nil
  from Nil(2) obtain r c where rc: "(r, c) \<in> set (children n)" "term_n c"
    by (auto simp: is_key_def)
  from wf_children_mem [OF wf_node_children [OF Nil(1)] rc(1)] rc(2)
  have "r = 0" "c = sentinel" by (auto simp: exact_ok_def)
  with rc(1) wf_node_distinct [OF Nil(1)] have "map_of (children n) 0 = Some sentinel" by simp
  then have "AList.update 0 sentinel (children n) = children n" by (rule update_triv)
  then show ?case by (simp add: addrune_Nil_fst)
next
  case (Cons r rs)
  from Cons.prems(2) obtain c where c: "(r, c) \<in> set (children n)" "\<not> term_n c" "key_in (children c) rs"
    by (auto simp: is_key_def)
  from c(1) wf_node_distinct [OF Cons.prems(1)] have m: "map_of (children n) r = Some c" by simp
  from wf_children_mem [OF wf_node_children [OF Cons.prems(1)] c(1)]
  have ok: "exact_ok r c" and wfc: "wf_node exact_ok c" by simp_all
  have "bits (maskruneslice rs) \<subseteq> bits (children_mask (children c))"
    using wf_node_children [OF wf_exact_imp_cover [OF wfc]] c(3) by (rule key_in_mask)
  with ok have "bits (maskruneslice (r # rs)) \<subseteq> bits (mask_n c)"
    by (auto simp: exact_ok_bits)
  then have "bits (mask_n c OR maskruneslice (r # rs)) = bits (mask_n c)" by auto
  then have "mask_n c OR maskruneslice (r # rs) = mask_n c" by (simp only: bits_inject)
  then have n1: "set_mask c (mask_n c OR maskruneslice (r # rs)) = c"
    by (simp add: set_mask_same del: maskruneslice_Cons)
  have "fst (addrune c rs (i + 1)) = c"
    using Cons.IH [OF wfc] c(3) by (simp add: is_key_def)
  with m n1 show ?case
    by (simp add: addrune_Cons_fst child_or_new_def update_triv del: maskruneslice_Cons)
qed

lemma AddAll_keys:
  "wf_node exact_ok (root t) \<Longrightarrow> \<forall>k \<in> set ks. nul_free k \<Longrightarrow>
     wf_node exact_ok (root (AddAll t ks)) \<and>
     (\<forall>s. is_key (root (AddAll t ks)) s \<longleftrightarrow> s \<in> set ks \<or> is_key (root t) s)"
proof (induction ks arbitrary: t)
  case Nil
  then show ?case by simp
next
  case (Cons k ks)
  from Cons.prems have nf: "nul_free k" and rest: "\<forall>k \<in> set ks. nul_free k" by simp_all
  have wf: "wf_node exact_ok (root (fst (Add t k)))"
    using addrune_exact [OF Cons.prems(1) nf, of 0] by (simp add: Add_root)
  have keys: "is_key (root (fst (Add t k))) s \<longleftrightarrow> s = k \<or> is_key (root t) s" for s
    using addrune_keys [OF Cons.prems(1) nf, of 0 s] by (simp add: Add_root)
  from Cons.IH [OF wf rest] keys show ?case by auto
qed

lemma is_key_CreateTrie [simp]: "\<not> is_key (root CreateTrie) s"
  by (simp add: CreateTrie_def is_key_def)

subsection \<open>Strings and rune slices\<close>

declare runes_of_string.simps [simp del]

lemma gt_not_nul: "(a :: rune) < r \<Longrightarrow> r \<noteq> 0"
  by (auto simp: word_less_nat_alt)

lemma decoderune_not_nul: "fst (decoderune s) \<noteq> 0"
proof -
  have e: "runeError \<noteq> 0" by (simp add: runeError_def)
  define r2 where "r2 = rune2 (s ! 0) (s ! 1)"
  define r3 where "r3 = rune3 (s ! 0) (s ! 1) (s ! 2)"
  define r4 where "r4 = rune4 (s ! 0) (s ! 1) (s ! 2) (s ! 3)"
  have "fst (decoderune s) = runeError \<or> (fst (decoderune s) = r2 \<and> 0x7F < r2)
        \<or> (fst (decoderune s) = r3 \<and> 0x7FF < r3) \<or> (fst (decoderune s) = r4 \<and> 0xFFFF < r4)"
    unfolding decoderune_def Let_def r2_def [symmetric] r3_def [symmetric] r4_def [symmetric]
    by (simp only: split: if_split) (simp only: fst_conv, blast)
  with e gt_not_nul show ?thesis by metis
qed

lemma unat_ucast_byte: "unat (ucast (b :: 8 word) :: rune) = unat b"
  by transfer simp

lemma ucast_byte_nul: "(ucast (b :: 8 word) :: rune) = 0 \<longleftrightarrow> b = 0"
proof
  assume "(ucast b :: rune) = 0"
  then have "unat (ucast b :: rune) = 0" by simp
  then have "unat b = 0" by (simp only: unat_ucast_byte)
  then show "b = 0" by (simp add: unat_0_iff)
qed simp

lemma encoderune_ascii: "b < 0x80 \<Longrightarrow> encoderune (ucast (b :: 8 word)) = [b]"
proof -
  assume "b < 0x80"
  then have "unat b < 128" by (simp add: word_less_nat_alt)
  then have "unat (ucast b :: rune) \<le> 127" by (simp add: unat_ucast_byte)
  then have "(ucast b :: rune) \<le> 0x7F" by (simp add: word_le_nat_alt)
  then show ?thesis by (simp add: encoderune_def ucast_up_ucast_id is_up)
qed

text \<open>The code point 0 comes from the byte 0 only.\<close>

lemma runes_of_string_nul: "0 \<in> set (runes_of_string s) \<Longrightarrow> 0 \<in> set s"
proof (induction s rule: runes_of_string.induct)
  case 1
  then show ?case by (simp add: runes_of_string.simps)
next
  case (2 b bs)
  show ?case
  proof (cases "b < 0x80")
    case True
    with 2(1) [OF True] 2(3) show ?thesis
      by (auto simp: runes_of_string.simps ucast_byte_nul)
  next
    case False
    obtain r w where rw: "decoderune (b # bs) = (r, w)" by (cases "decoderune (b # bs)")
    then have "r \<noteq> 0" using decoderune_not_nul [of "b # bs"] by simp
    with 2(3) False rw have "0 \<in> set (runes_of_string (drop w (b # bs)))"
      by (simp add: runes_of_string.simps)
    from 2(2) [OF False refl rw [symmetric] this]
    show ?thesis by (rule in_set_dropD)
  qed
qed

text \<open>
  A string of bytes below \<^verbatim>\<open>0x80\<close>, the letters among them, comes back as it is from
  \<^verbatim>\<open>string([]rune(s))\<close>.
\<close>

lemma ascii_round_trip:
  "\<forall>b \<in> set s. b < 0x80 \<Longrightarrow> string_of_runes (runes_of_string s) = s"
  by (induction s) (simp_all add: runes_of_string.simps string_of_runes_def encoderune_ascii)

text \<open>
  The encodings of \<^verbatim>\<open>U+00E9\<close>, \<^verbatim>\<open>U+20AC\<close> and \<^verbatim>\<open>U+1D11E\<close> in two, three and four bytes,
  and two bytes that start no encoding.
\<close>

lemma utf8_examples:
  "runes_of_string [0xC3, 0xA9, 0xE2, 0x82, 0xAC, 0xF0, 0x9D, 0x84, 0x9E] = [0xE9, 0x20AC, 0x1D11E] \<and>
   string_of_runes [0xE9, 0x20AC, 0x1D11E] = [0xC3, 0xA9, 0xE2, 0x82, 0xAC, 0xF0, 0x9D, 0x84, 0x9E] \<and>
   runes_of_string [0xFF, 0xFE] = [0xFFFD, 0xFFFD] \<and>
   string_of_runes [0xFFFD] = [0xEF, 0xBF, 0xBD]"
  by code_simp

lemma Keys_AddAll_runes:
  assumes "\<forall>k \<in> set ks. nul_free k"
  shows "\<exists>out. Keys (AddAll CreateTrie ks) = Inr out \<and> set out = set ks"
proof -
  have wf: "wf_node exact_ok (root CreateTrie)" by (simp add: CreateTrie_def)
  from AddAll_keys [OF wf assms]
  have "set (collect (root (AddAll CreateTrie ks)) [] []) = set ks"
    by (auto simp: collect_sets)
  then show ?thesis by (simp add: Keys_collect)
qed

subsection \<open>A key with the code point 0 and the masks below the root\<close>

text \<open>
  After \<open>Add\<close> of \<^verbatim>\<open>"a\x00b"\<close> and of \<^verbatim>\<open>"a"\<close>, the node of \<^verbatim>\<open>a\<close> keeps the bit of \<^verbatim>\<open>b\<close>
  in its mask, and its only child is the sentinel.
\<close>

lemma mask_invariant_nul_key:
  "\<not> list_all mask_invariant (descendants (root (AddAll CreateTrie [[97, 0, 98], [97]])))"
  by code_simp

section \<open>The claims\<close>

text \<open>
  The keys of the examples are written as their code points: \<^verbatim>\<open>"cat"\<close> is
  \<open>[99, 97, 116]\<close>, \<^verbatim>\<open>"car"\<close> is \<open>[99, 97, 114]\<close>, \<^verbatim>\<open>"cart"\<close> is
  \<open>[99, 97, 114, 116]\<close>, \<^verbatim>\<open>"dog"\<close> is \<open>[100, 111, 103]\<close>, \<^verbatim>\<open>"a"\<close> is \<open>[97]\<close>,
  \<^verbatim>\<open>"ab"\<close> is \<open>[97, 98]\<close>, \<^verbatim>\<open>"z"\<close> is \<open>[122]\<close>, and \<open>0\<close> is the code point of
  \<^verbatim>\<open>"\x00"\<close>.
\<close>

text \<open>
  C1. For every trie that \<open>Add\<close> and \<open>Remove\<close> can build, every key \<open>k\<close> stored in it
  and every pattern \<open>p\<close>: \<open>k\<close> is in the result of \<open>FuzzySearch p\<close> if and only if the
  runes of \<open>p\<close> are a subsequence of the runes of \<open>k\<close>, in order and not necessarily
  contiguous; and the result is sorted ascending in the lexicographic order.
\<close>

theorem fuzzy_search_subsequence:
  assumes "built any_key t" and "stored t k"
  shows "(k \<in> set (FuzzySearch t p) \<longleftrightarrow> subseq p k) \<and> sorted (FuzzySearch t p)"
  using FuzzySearch_iff [OF built_cover [OF assms(1)] assms(2)] sorted_FuzzySearch by simp

theorem fuzzy_search_subsequence_witness:
  "built any_key (AddAll CreateTrie [[99, 97, 116], [99, 97, 114]]) \<and>
   stored (AddAll CreateTrie [[99, 97, 116], [99, 97, 114]]) [99, 97, 116] \<and>
   ([99, 97, 116] \<in> set (FuzzySearch (AddAll CreateTrie [[99, 97, 116], [99, 97, 114]]) [99, 116])
      \<longleftrightarrow> subseq [99, 116] [99, 97, 116]) \<and>
   sorted (FuzzySearch (AddAll CreateTrie [[99, 97, 116], [99, 97, 114]]) [99, 116])"
proof -
  have b: "built any_key (AddAll CreateTrie [[99, 97, 116], [99, 97, 114]])"
    by (rule built_AddAll [OF built_Create]) (simp add: any_key_def)
  have s: "stored (AddAll CreateTrie [[99, 97, 116], [99, 97, 114]]) [99, 97, 116]"
    by code_simp
  from fuzzy_search_subsequence [OF b s, of "[99, 116]"] b s show ?thesis by simp
qed

text \<open>
  C2, amended. The claim as stated fails at the root: \<open>addrune\<close> sets the masks of the
  nodes it walks through below the root and never the mask of the root, which nothing
  reads. It also fails below the root once a key with the code point 0 has been added
  (\<open>mask_invariant_nul_key\<close>). What holds: in every trie built from the fresh one by
  \<open>Add\<close> of keys without the code point 0 and by \<open>Remove\<close>, after every such \<open>Add\<close>
  and after every \<open>Remove\<close> of a stored key (which returns), the mask of every node
  other than the root is the bit of its own character joined with, over its children
  \<open>c\<close>, the bit of the character of \<open>c\<close> and the mask of \<open>c\<close>.
\<close>

theorem mask_invariant_below_root:
  assumes "built nul_free t"
  shows "(nul_free k \<longrightarrow> (\<forall>n \<in> set (descendants (root (fst (Add t k)))). mask_invariant n)) \<and>
         (stored t k \<longrightarrow>
            (\<exists>t'. Remove t k = Inr t' \<and> (\<forall>n \<in> set (descendants (root t')). mask_invariant n)))"
proof (intro conjI impI)
  assume "nul_free k"
  with assms have "built nul_free (fst (Add t k))" by (rule built_Add)
  then have "wf_node exact_ok (root (fst (Add t k)))" by (rule built_exact)
  then show "\<forall>n \<in> set (descendants (root (fst (Add t k)))). mask_invariant n"
    by (rule descendants_mask_invariant(1))
next
  assume "stored t k"
  with assms obtain x where "lookup (root t) k = Some x" using stored_lookup by blast
  from Remove_found [OF this] obtain t' where t': "Remove t k = Inr t'" by blast
  with assms have "built nul_free t'" by (rule built_Remove)
  then have "wf_node exact_ok (root t')" by (rule built_exact)
  then have "\<forall>n \<in> set (descendants (root t')). mask_invariant n"
    by (rule descendants_mask_invariant(1))
  with t' show "\<exists>t'. Remove t k = Inr t' \<and> (\<forall>n \<in> set (descendants (root t')). mask_invariant n)"
    by blast
qed

theorem mask_invariant_below_root_witness:
  "built nul_free (AddAll CreateTrie [[99, 97, 116], [99, 97, 114]]) \<and>
   nul_free [99, 97, 116] \<and>
   stored (AddAll CreateTrie [[99, 97, 116], [99, 97, 114]]) [99, 97, 116] \<and>
   list_all mask_invariant
     (descendants (root (fst (Add (AddAll CreateTrie [[99, 97, 116], [99, 97, 114]]) [99, 97, 116])))) \<and>
   (\<exists>t'. Remove (AddAll CreateTrie [[99, 97, 116], [99, 97, 114]]) [99, 97, 116] = Inr t' \<and>
      list_all mask_invariant (descendants (root t')))"
proof -
  define T where "T = AddAll CreateTrie [[99, 97, 116], [99, 97, 114]]"
  define K :: "rune list" where "K = [99, 97, 116]"
  have b: "built nul_free T"
    unfolding T_def by (rule built_AddAll [OF built_Create]) (simp add: nul_free_def nul_def)
  have nf: "nul_free K" by (simp add: K_def nul_free_def nul_def)
  have s: "stored T K" unfolding T_def K_def by code_simp
  from mask_invariant_below_root [OF b, of K] nf s
  have "list_all mask_invariant (descendants (root (fst (Add T K)))) \<and>
        (\<exists>t'. Remove T K = Inr t' \<and> list_all mask_invariant (descendants (root t')))"
    unfolding list_all_iff by blast
  with b nf s show ?thesis unfolding T_def K_def by blast
qed

text \<open>
  The claim C2 as stated, at the root of the trie that holds the one key \<^verbatim>\<open>"a"\<close>: the mask
  of the root is 0, the mask of its child has the bit of \<^verbatim>\<open>a\<close>.
\<close>

theorem mask_invariant_root_counterexample:
  "\<not> mask_invariant (root (fst (Add CreateTrie [97])))"
  by code_simp

text \<open>
  C3. After \<open>Add\<close> of \<^verbatim>\<open>"cat"\<close> and \<^verbatim>\<open>"car"\<close> to a fresh trie, \<open>Remove\<close> of \<^verbatim>\<open>"cat"\<close>
  returns, and \<open>Keys\<close> then returns exactly \<^verbatim>\<open>"car"\<close>.
\<close>

theorem Remove_cat_leaves_car:
  "\<exists>t'. Remove (AddAll CreateTrie [[99, 97, 116], [99, 97, 114]]) [99, 97, 116] = Inr t' \<and>
     Keys t' = Inr [[99, 97, 114]]"
proof -
  have "(case Remove (AddAll CreateTrie [[99, 97, 116], [99, 97, 114]]) [99, 97, 116] of
           Inl e \<Rightarrow> Inl e | Inr t' \<Rightarrow> Keys t') = Inr [[99, 97, 114]]"
    by code_simp
  then show ?thesis by (auto split: sum.splits)
qed

text \<open>
  C4. The claim asks that \<open>Remove\<close> of a key that is not stored fails with a
  "key not found" condition. The source has no such check. Where the path of the key
  does not exist, \<open>nodeAtPath\<close> returns \<^verbatim>\<open>nil\<close> and \<^verbatim>\<open>node.Parent()\<close> panics with a nil
  dereference (\<open>PrefixSearch\<close> tests the same result for \<^verbatim>\<open>nil\<close>): on the fresh trie,
  \<open>Remove\<close> of \<^verbatim>\<open>"a"\<close>. Where the path exists and the key is not stored, \<open>Remove\<close>
  returns and may take stored keys away: with \<^verbatim>\<open>"cat"\<close>, \<^verbatim>\<open>"car"\<close> and \<^verbatim>\<open>"dog"\<close> stored,
  after \<open>Remove\<close> of \<^verbatim>\<open>"ca"\<close> only \<^verbatim>\<open>"dog"\<close> is stored.
\<close>

theorem Remove_absent_key:
  "\<not> stored CreateTrie [97] \<and>
   Remove CreateTrie [97] = Inl NilDereference \<and>
   \<not> stored (AddAll CreateTrie [[99, 97, 116], [99, 97, 114], [100, 111, 103]]) [99, 97] \<and>
   (case Remove (AddAll CreateTrie [[99, 97, 116], [99, 97, 114], [100, 111, 103]]) [99, 97] of
      Inl e \<Rightarrow> Inl e | Inr t' \<Rightarrow> Keys t') = Inr [[100, 111, 103]]"
  by code_simp

text \<open>
  C5, amended. The claim as stated fails for keys with the byte 0, whose code point the
  source uses as the key of the terminal sentinel, and for keys that are not valid UTF-8,
  which \<^verbatim>\<open>[]rune(key)\<close> and \<^verbatim>\<open>string(pre)\<close> do not give back. What holds: after \<open>Add\<close>
  of any list of keys that are valid UTF-8 (\<^verbatim>\<open>string([]rune(key)) == key\<close>) and without the
  byte 0 to a fresh trie, in any order and with repetitions, the strings that \<open>Keys\<close>
  returns are exactly the set of those keys.
\<close>

theorem Keys_after_AddAll:
  assumes "\<forall>k \<in> set ks. string_of_runes (runes_of_string k) = k \<and> 0 \<notin> set k"
  shows "\<exists>out. Keys (AddAll CreateTrie (map runes_of_string ks)) = Inr out \<and>
           set (map string_of_runes out) = set ks"
proof -
  have "\<forall>k \<in> set (map runes_of_string ks). nul_free k"
    using assms runes_of_string_nul by (auto simp: nul_free_def nul_def)
  from Keys_AddAll_runes [OF this] obtain out
    where out: "Keys (AddAll CreateTrie (map runes_of_string ks)) = Inr out"
      "set out = set (map runes_of_string ks)" by blast
  have "set (map string_of_runes out) = (\<lambda>k. string_of_runes (runes_of_string k)) ` set ks"
    using out(2) by (simp add: image_image)
  also have "\<dots> = set ks" using assms by force
  finally show ?thesis using out(1) by blast
qed

theorem Keys_after_AddAll_witness:
  "(string_of_runes (runes_of_string [99, 97, 116]) = [99, 97, 116] \<and> 0 \<notin> set [99, 97, 116 :: 8 word]) \<and>
   (string_of_runes (runes_of_string [99, 97, 114]) = [99, 97, 114] \<and> 0 \<notin> set [99, 97, 114 :: 8 word]) \<and>
   (string_of_runes (runes_of_string [100, 111, 103]) = [100, 111, 103] \<and>
      0 \<notin> set [100, 111, 103 :: 8 word]) \<and>
   (\<exists>out. Keys (AddAll CreateTrie (map runes_of_string [[99, 97, 116], [99, 97, 114], [100, 111, 103]]))
            = Inr out \<and>
      set (map string_of_runes out) = {[99, 97, 116], [99, 97, 114], [100, 111, 103]})"
proof -
  define ks :: "gostring list" where "ks = [[99, 97, 116], [99, 97, 114], [100, 111, 103]]"
  have 1: "string_of_runes (runes_of_string [99, 97, 116]) = [99, 97, 116]" by code_simp
  have 2: "string_of_runes (runes_of_string [99, 97, 114]) = [99, 97, 114]" by code_simp
  have 3: "string_of_runes (runes_of_string [100, 111, 103]) = [100, 111, 103]" by code_simp
  have h: "\<forall>k \<in> set ks. string_of_runes (runes_of_string k) = k \<and> 0 \<notin> set k"
    using 1 2 3 by (simp add: ks_def)
  have "set ks = {[99, 97, 116], [99, 97, 114], [100, 111, 103]}" by (simp add: ks_def)
  with Keys_after_AddAll [OF h]
  have "\<exists>out. Keys (AddAll CreateTrie (map runes_of_string ks)) = Inr out \<and>
          set (map string_of_runes out) = {[99, 97, 116], [99, 97, 114], [100, 111, 103]}"
    by simp
  with 1 2 3 show ?thesis unfolding ks_def by simp
qed

text \<open>
  The claim C5 as stated, at the keys \<^verbatim>\<open>""\<close> and \<^verbatim>\<open>"\x00"\<close>, added in either order:
  \<open>Keys\<close> returns \<^verbatim>\<open>""\<close> alone. And at the one key \<^verbatim>\<open>"\xff"\<close>: \<open>Keys\<close> returns the
  string \<^verbatim>\<open>"\xef\xbf\xbd"\<close> of \<^verbatim>\<open>U+FFFD\<close>.
\<close>

theorem Keys_after_AddAll_counterexample:
  "Keys (AddAll CreateTrie (map runes_of_string [[], [0]])) = Inr [[]] \<and>
   Keys (AddAll CreateTrie (map runes_of_string [[0], []])) = Inr [[]] \<and>
   set (map string_of_runes [[]]) \<noteq> {[], [0]} \<and>
   Keys (AddAll CreateTrie (map runes_of_string [[0xFF]])) = Inr [[0xFFFD]] \<and>
   map string_of_runes [[0xFFFD]] = [[0xEF, 0xBF, 0xBD]] \<and>
   set [[0xEF, 0xBF, 0xBD :: 8 word]] \<noteq> {[0xFF]}"
  by code_simp

text \<open>
  C6. After \<open>Add\<close> of \<^verbatim>\<open>"cat"\<close>, \<^verbatim>\<open>"car"\<close>, \<^verbatim>\<open>"cart"\<close> and \<^verbatim>\<open>"dog"\<close> to a fresh trie,
  \<open>PrefixSearch\<close> of \<^verbatim>\<open>"ca"\<close> returns exactly the keys \<^verbatim>\<open>"cat"\<close>, \<^verbatim>\<open>"car"\<close> and \<^verbatim>\<open>"cart"\<close>,
  and \<open>PrefixSearch\<close> of \<^verbatim>\<open>"z"\<close> returns the empty sequence.
\<close>

theorem PrefixSearch_ca_and_z:
  "(\<exists>ks. PrefixSearch (AddAll CreateTrie [[99, 97, 116], [99, 97, 114], [99, 97, 114, 116], [100, 111, 103]])
            [99, 97] = Inr ks \<and>
      set ks = {[99, 97, 116], [99, 97, 114], [99, 97, 114, 116]}) \<and>
   PrefixSearch (AddAll CreateTrie [[99, 97, 116], [99, 97, 114], [99, 97, 114, 116], [100, 111, 103]])
     [122] = Inr []"
proof -
  have 1: "PrefixSearch (AddAll CreateTrie [[99, 97, 116], [99, 97, 114], [99, 97, 114, 116], [100, 111, 103]])
            [99, 97] = Inr [[99, 97, 116], [99, 97, 114], [99, 97, 114, 116]]"
    by code_simp
  have 2: "PrefixSearch (AddAll CreateTrie [[99, 97, 116], [99, 97, 114], [99, 97, 114, 116], [100, 111, 103]])
     [122] = Inr []"
    by code_simp
  have 3: "set [[99, 97, 116], [99, 97, 114], [99, 97, 114, 116 :: rune]]
             = {[99, 97, 116], [99, 97, 114], [99, 97, 114, 116]}"
    by simp
  from 1 2 3 show ?thesis by blast
qed

text \<open>
  C7, amended. The claim as stated fails in a trie to which a key with the code point 0
  has been added. What holds: in every trie built from the fresh one by \<open>Add\<close> of keys
  without the code point 0 and by \<open>Remove\<close>, \<open>Add\<close> of a key that is stored changes
  nothing but the size counter, which it increments: \<open>Keys\<close> returns the keys it
  returned before, the mask of every node other than the root satisfies the equation of
  C2, and the root satisfies it after the call exactly if it did before.
\<close>

theorem Add_present_key:
  assumes "built nul_free t" and "stored t k"
  shows "fst (Add t k) = t\<lparr>size_n := size_n t + 1\<rparr> \<and>
         (\<forall>s. stored (fst (Add t k)) s \<longleftrightarrow> stored t s) \<and>
         (\<forall>n \<in> set (descendants (root (fst (Add t k)))). mask_invariant n) \<and>
         (mask_invariant (root (fst (Add t k))) \<longleftrightarrow> mask_invariant (root t))"
proof -
  have wf: "wf_node exact_ok (root t)" using assms(1) by (rule built_exact)
  have r: "root (fst (Add t k)) = root t"
    using addrune_readd [OF wf, of k 0] assms(2) by (simp add: Add_root stored_is_key)
  have "fst (Add t k) = t\<lparr>size_n := size_n t + 1, root := fst (addrune (root t) k 0)\<rparr>"
    by (simp add: Add_def Let_def case_prod_beta)
  also have "\<dots> = t\<lparr>size_n := size_n t + 1\<rparr>"
    using r by (simp add: Add_root)
  finally have e: "fst (Add t k) = t\<lparr>size_n := size_n t + 1\<rparr>" .
  have "\<forall>n \<in> set (descendants (root t)). mask_invariant n"
    using wf by (rule descendants_mask_invariant(1))
  with e r show ?thesis by (simp add: stored_is_key)
qed

theorem Add_present_key_witness:
  "built nul_free (AddAll CreateTrie [[99, 97, 116], [99, 97, 114]]) \<and>
   stored (AddAll CreateTrie [[99, 97, 116], [99, 97, 114]]) [99, 97, 116] \<and>
   fst (Add (AddAll CreateTrie [[99, 97, 116], [99, 97, 114]]) [99, 97, 116])
     = (AddAll CreateTrie [[99, 97, 116], [99, 97, 114]])
         \<lparr>size_n := size_n (AddAll CreateTrie [[99, 97, 116], [99, 97, 114]]) + 1\<rparr> \<and>
   stored (fst (Add (AddAll CreateTrie [[99, 97, 116], [99, 97, 114]]) [99, 97, 116])) [99, 97, 114]"
proof -
  define T where "T = AddAll CreateTrie [[99, 97, 116], [99, 97, 114]]"
  define K :: "rune list" where "K = [99, 97, 116]"
  define K' :: "rune list" where "K' = [99, 97, 114]"
  have b: "built nul_free T"
    unfolding T_def by (rule built_AddAll [OF built_Create]) (simp add: nul_free_def nul_def)
  have s: "stored T K" unfolding T_def K_def by code_simp
  have s': "stored T K'" unfolding T_def K'_def by code_simp
  from Add_present_key [OF b s] b s s' show ?thesis unfolding T_def K_def K'_def by blast
qed

text \<open>
  The claim C7 as stated, in the trie built by \<open>Add\<close> of \<^verbatim>\<open>"a"\<close> and of \<^verbatim>\<open>"a\x00"\<close>:
  \<^verbatim>\<open>"a"\<close> is stored, and \<open>Add\<close> of \<^verbatim>\<open>"a"\<close> replaces the sentinel below \<^verbatim>\<open>a\<close>, with the
  node below it. \<open>FuzzySearch\<close> of \<^verbatim>\<open>"\x00"\<close> shows the change.
\<close>

theorem Add_present_key_nul_counterexample:
  "stored (AddAll CreateTrie [[97], [97, 0]]) [97] \<and>
   root (fst (Add (AddAll CreateTrie [[97], [97, 0]]) [97])) \<noteq> root (AddAll CreateTrie [[97], [97, 0]]) \<and>
   FuzzySearch (AddAll CreateTrie [[97], [97, 0]]) [0] = [[97, 0]] \<and>
   FuzzySearch (fst (Add (AddAll CreateTrie [[97], [97, 0]]) [97])) [0] = []"
  by code_simp

text \<open>
  C8. For every trie and every key \<open>k\<close>, \<open>Add k\<close> increments the size counter by exactly
  one and returns the depth of the inserted key, the number of runes of \<open>k\<close>.
\<close>

theorem Add_increments_size_returns_depth:
  "size_n (fst (Add t k)) = size_n t + 1 \<and> snd (Add t k) = int (length k)"
  by (simp add: Add_size Add_snd)

text \<open>
  C9. For every trie and every \<open>k\<close> whose path exists in it, \<open>Remove k\<close> returns and
  has decremented the size counter by exactly one, also when no node is detached: in
  the trie that holds the one key \<^verbatim>\<open>"ab"\<close>, a chain without a branch, \<open>Remove\<close> of
  \<^verbatim>\<open>"ab"\<close> and \<open>Remove\<close> of \<^verbatim>\<open>"a"\<close>, which was never added, both leave the tree as it
  was with the size 0, while \<open>Keys\<close> still returns \<^verbatim>\<open>"ab"\<close>.
\<close>

theorem Remove_decrements_size:
  "(\<forall>t k x. nodeAtPath t k = Inr (Some x) \<longrightarrow>
      (\<exists>t'. Remove t k = Inr t' \<and> size_n t' = size_n t - 1)) \<and>
   Remove (AddAll CreateTrie [[97, 98]]) [97, 98] = Inr ((AddAll CreateTrie [[97, 98]])\<lparr>size_n := 0\<rparr>) \<and>
   Remove (AddAll CreateTrie [[97, 98]]) [97] = Inr ((AddAll CreateTrie [[97, 98]])\<lparr>size_n := 0\<rparr>) \<and>
   Keys ((AddAll CreateTrie [[97, 98]])\<lparr>size_n := 0\<rparr>) = Inr [[97, 98]]"
proof (intro conjI allI impI)
  fix t k x
  assume "nodeAtPath t k = Inr (Some x)"
  then have "lookup (root t) k = Some x" by (simp add: nodeAtPath_lookup)
  from Remove_found [OF this]
  show "\<exists>t'. Remove t k = Inr t' \<and> size_n t' = size_n t - 1" by blast
next
  show "Remove (AddAll CreateTrie [[97, 98]]) [97, 98] = Inr ((AddAll CreateTrie [[97, 98]])\<lparr>size_n := 0\<rparr>)"
    by code_simp
next
  show "Remove (AddAll CreateTrie [[97, 98]]) [97] = Inr ((AddAll CreateTrie [[97, 98]])\<lparr>size_n := 0\<rparr>)"
    by code_simp
next
  show "Keys ((AddAll CreateTrie [[97, 98]])\<lparr>size_n := 0\<rparr>) = Inr [[97, 98]]"
    by code_simp
qed

theorem Remove_decrements_size_witness:
  "nodeAtPath (AddAll CreateTrie [[97, 98]]) [97, 98] = Inr (Some (Node 98 False 2 [(0, Node 0 True 0 [])])) \<and>
   (\<exists>t'. Remove (AddAll CreateTrie [[97, 98]]) [97, 98] = Inr t' \<and>
      size_n t' = size_n (AddAll CreateTrie [[97, 98]]) - 1)"
proof -
  define T where "T = AddAll CreateTrie [[97, 98]]"
  define K :: "rune list" where "K = [97, 98]"
  define X where "X = Node 98 False 2 [(0, Node 0 True 0 [])]"
  have n: "nodeAtPath T K = Inr (Some X)" unfolding T_def K_def X_def by code_simp
  from Remove_decrements_size have
    "\<forall>t k x. nodeAtPath t k = Inr (Some x) \<longrightarrow> (\<exists>t'. Remove t k = Inr t' \<and> size_n t' = size_n t - 1)"
    by (rule conjunct1)
  with n have "\<exists>t'. Remove T K = Inr t' \<and> size_n t' = size_n T - 1" by blast
  with n show ?thesis unfolding T_def K_def X_def by blast
qed

text \<open>
  C10. In every trie that \<open>Add\<close> and \<open>Remove\<close> can build and that stores two keys \<open>k\<close>
  and \<open>k'\<close>, \<open>k\<close> a proper prefix of \<open>k'\<close>, where every node of the parent chain of the
  node at \<open>k\<close> has exactly one child: \<open>Remove k\<close> returns and detaches no node, the tree
  is as it was, and \<open>k\<close> is still stored.
\<close>

theorem Remove_prefix_key_detaches_nothing:
  assumes "built any_key t" and "stored t k" and "stored t k'" and "strict_prefix k k'"
    and "\<forall>a \<in> set (parentChain t k). length (children a) = 1"
  shows "\<exists>t'. Remove t k = Inr t' \<and> root t' = root t \<and> stored t' k"
proof -
  from assms(1,2) obtain x where x: "lookup (root t) k = Some x" using stored_lookup by blast
  have "\<forall>a \<in> set (parentChain t k). length (children a) \<le> 1" using assms(5) by simp
  then have "Remove_loop (parentChain t k) k 0 = Inr None" by (rule Remove_loop_single)
  then have "Remove t k = Inr (t\<lparr>size_n := size_n t - 1\<rparr>)"
    by (simp add: Remove_def nodeAtPath_lookup x Let_def)
  moreover have "stored (t\<lparr>size_n := size_n t - 1\<rparr>) k"
    using assms(2) by (simp add: stored_is_key)
  ultimately show ?thesis by simp
qed

theorem Remove_prefix_key_detaches_nothing_witness:
  "stored (AddAll CreateTrie [[97], [97, 98]]) [97] \<and>
   stored (AddAll CreateTrie [[97], [97, 98]]) [97, 98] \<and>
   strict_prefix [97 :: rune] [97, 98] \<and>
   list_all (\<lambda>a. length (children a) = 1) (parentChain (AddAll CreateTrie [[97], [97, 98]]) [97]) \<and>
   (\<exists>t'. Remove (AddAll CreateTrie [[97], [97, 98]]) [97] = Inr t' \<and>
      root t' = root (AddAll CreateTrie [[97], [97, 98]]) \<and> stored t' [97])"
proof -
  define T where "T = AddAll CreateTrie [[97], [97, 98]]"
  define K :: "rune list" where "K = [97]"
  define K' :: "rune list" where "K' = [97, 98]"
  have b: "built any_key T"
    unfolding T_def by (rule built_AddAll [OF built_Create]) (simp add: any_key_def)
  have s: "stored T K" unfolding T_def K_def by code_simp
  have s': "stored T K'" unfolding T_def K'_def by code_simp
  have p: "strict_prefix K K'" by (simp add: K_def K'_def)
  have c: "list_all (\<lambda>a. length (children a) = 1) (parentChain T K)"
    unfolding T_def K_def by code_simp
  then have c': "\<forall>a \<in> set (parentChain T K). length (children a) = 1"
    by (simp only: list_all_iff)
  from Remove_prefix_key_detaches_nothing [OF b s s' p c'] s s' p c
  show ?thesis unfolding T_def K_def K'_def by blast
qed

end
